theory Spec2Isabelle
  imports Complex_Main "HOL-Library.Monad_Syntax" "HOL-Library.Signed_Division"
begin

section \<open>Go values used by the test harness\<close>

text \<open>
  A \<^verbatim>\<open>float64\<close> of \<^verbatim>\<open>internal/asm/f64/asm_test.go\<close> is a NaN, an infinity or a
  finite number. The harness only stores, copies and compares these values, so a finite
  value carries its number and rounding plays no part; \<open>+0\<close> and \<open>-0\<close>, which Go's \<^verbatim>\<open>==\<close>
  does not tell apart, are the one value \<open>Fin 0\<close>. Go's \<^verbatim>\<open>int\<close> is modelled by
  \<open>int\<close>. The arithmetic of \<open>newGuardedVector\<close> is written with the 64-bit wrap-around; the
  other functions are used at lengths and strides far below \<open>2^63\<close>, where nothing wraps.
  A run-time panic of Go (index or slice bounds out of range, negative length for
  \<^verbatim>\<open>make\<close>, integer division by zero) is the result \<open>None\<close>.
\<close>

datatype float64 = NaN | PosInf | NegInf | Fin real

definition IsNaN :: "float64 \<Rightarrow> bool" where
  "IsNaN x = (x = NaN)"

text \<open>Go's \<^verbatim>\<open>==\<close> on float64: a NaN is equal to nothing, not even to itself.\<close>

definition feq :: "float64 \<Rightarrow> float64 \<Rightarrow> bool" where
  "feq a b = (a \<noteq> NaN \<and> b \<noteq> NaN \<and> a = b)"

text \<open>
  Modelled from the spec: \<^verbatim>\<open>scalar.Same\<close> of \<^verbatim>\<open>gonum.org/v1/gonum/floats/scalar\<close> is
  not among the source files. The spec (4.3) calls two values the same when both are NaN
  or both are the identical value.
\<close>

definition Same :: "float64 \<Rightarrow> float64 \<Rightarrow> bool" where
  "Same a b = (feq a b \<or> (IsNaN a \<and> IsNaN b))"

text \<open>\<^verbatim>\<open>make([]float64, n)\<close>: a zeroed slice, or a panic when \<open>n\<close> is negative.\<close>

definition make_f64 :: "int \<Rightarrow> float64 list option" where
  "make_f64 n = (if n < 0 then None else Some (replicate (nat n) (Fin 0)))"

text \<open>\<^verbatim>\<open>xs[i]\<close> read and written, with Go's bounds check.\<close>

definition get_at :: "'a list \<Rightarrow> int \<Rightarrow> 'a option" where
  "get_at xs i = (if 0 \<le> i \<and> i < int (length xs) then Some (xs ! nat i) else None)"

definition set_at :: "'a list \<Rightarrow> int \<Rightarrow> 'a \<Rightarrow> 'a list option" where
  "set_at xs i v = (if 0 \<le> i \<and> i < int (length xs) then Some (xs[nat i := v]) else None)"

text \<open>
  \<^verbatim>\<open>xs[lo:hi]\<close> on a slice whose capacity is its length (every slice of the harness
  comes from \<^verbatim>\<open>make\<close> with one size argument).
\<close>

definition slice :: "'a list \<Rightarrow> int \<Rightarrow> int \<Rightarrow> 'a list option" where
  "slice xs lo hi =
     (if 0 \<le> lo \<and> lo \<le> hi \<and> hi \<le> int (length xs)
      then Some (take (nat (hi - lo)) (drop (nat lo) xs)) else None)"

text \<open>\<^verbatim>\<open>copy(dst, src)\<close>: the first \<open>min (len dst) (len src)\<close> elements of \<open>dst\<close> are overwritten.\<close>

definition copy :: "'a list \<Rightarrow> 'a list \<Rightarrow> 'a list" where
  "copy dst src = take (min (length dst) (length src)) src @ drop (min (length dst) (length src)) dst"

text \<open>A loop over the indices \<open>is\<close> whose body may panic; the state is threaded through.\<close>

primrec forM :: "'i list \<Rightarrow> ('i \<Rightarrow> 's \<Rightarrow> 's option) \<Rightarrow> 's \<Rightarrow> 's option" where
  "forM [] f s = Some s"
| "forM (i # is) f s = Option.bind (f i s) (forM is f)"

section \<open>Unit-stride guards: guardVector and isValidGuard\<close>





section \<open>Strided guarded vectors: newGuardedVector and its validators\<close>

text \<open>
  \<^verbatim>\<open>
  func newGuardedVector(data []float64, inc int) (v, frontGuard, backGuard []float64) {
      if inc < 0 {
          inc = -inc
      }
      guard := 2 * inc
      size := (len(data)-1)*inc + 1
      whole := make([]float64, size+2*guard)
      v = whole[guard : len(whole)-guard]
      for i := range whole {
          whole[i] = math.NaN()
      }
      for i, d := range data {
          v[i*inc] = d
      }
      return v, whole[:guard], whole[len(whole)-guard:]
  }
  \<close>
  The three results are views of the one array \<open>whole\<close>. \<open>newGuardedVector_whole\<close> is that
  array when the function returns, with the guard length; the write \<^verbatim>\<open>v[i*inc] = d\<close> is
  checked against the bounds of \<open>v\<close> and lands in \<open>whole\<close> at \<open>guard + i*inc\<close>.

  The stride of this function ranges over every value of Go's 64-bit \<^verbatim>\<open>int\<close>, so its
  arithmetic is written with the wrap-around: \<open>int64 x\<close> is the two's complement value of
  \<open>x\<close>, the result Go computes where the exact result is \<open>x\<close>. The argument \<open>inc0\<close> is read as
  an int64 as well, so that the negation of the least value is the least value again, as
  in Go; a number of magnitude above \<open>2^63\<close> stands for no value of the type and the call
  has no result. The length of a slice is below \<open>2^63\<close>.
\<close>

definition int64 :: "int \<Rightarrow> int" where
  "int64 x = (x + 2 ^ 63) mod 2 ^ 64 - 2 ^ 63"

definition newGuardedVector_store ::
  "float64 list \<Rightarrow> int \<Rightarrow> int \<Rightarrow> int \<Rightarrow> nat \<Rightarrow> float64 list \<Rightarrow> float64 list option" where
  "newGuardedVector_store data inc guard vlen i whole =
     (let j = int64 (int i * inc) in
      if 0 \<le> j \<and> j < vlen then set_at whole (guard + j) (data ! i) else None)"

definition newGuardedVector_whole :: "float64 list \<Rightarrow> int \<Rightarrow> (float64 list \<times> int) option" where
  "newGuardedVector_whole data inc0 =
     (if 2 ^ 63 < \<bar>inc0\<bar> then None
      else
        let inc1 = int64 inc0;
            inc = (if inc1 < 0 then int64 (- inc1) else inc1);
            guard = int64 (2 * inc);
            size = int64 (int64 (int64 (int (length data) - 1) * inc) + 1)
        in do {
          whole \<leftarrow> make_f64 (int64 (size + int64 (2 * guard)));
          v \<leftarrow> slice whole guard (int64 (int (length whole) - guard));
          whole' \<leftarrow> forM [0..<length data]
                      (newGuardedVector_store data inc guard (int (length v)))
                      (map (\<lambda>_. NaN) whole);
          Some (whole', guard)
        })"

definition newGuardedVector ::
  "float64 list \<Rightarrow> int \<Rightarrow> (float64 list \<times> float64 list \<times> float64 list) option" where
  "newGuardedVector data inc =
     do {
       (whole, guard) \<leftarrow> newGuardedVector_whole data inc;
       v \<leftarrow> slice whole guard (int64 (int (length whole) - guard));
       frontGuard \<leftarrow> slice whole 0 guard;
       backGuard \<leftarrow> slice whole (int64 (int (length whole) - guard)) (int (length whole));
       Some (v, frontGuard, backGuard)
     }"

text \<open>The stride after the sign test of lines 32 to 34, the argument read as an int64.\<close>

definition stride_of :: "int \<Rightarrow> int" where
  "stride_of inc0 = (let inc1 = int64 inc0 in if inc1 < 0 then int64 (- inc1) else inc1)"

text \<open>
  \<^verbatim>\<open>
  func allNaN(x []float64) bool {
      for _, v := range x {
          if !math.IsNaN(v) {
              return false
          }
      }
      return true
  }
  \<close>
\<close>

primrec allNaN :: "float64 list \<Rightarrow> bool" where
  "allNaN [] = True"
| "allNaN (v # x) = (if \<not> IsNaN v then False else allNaN x)"

text \<open>
  \<^verbatim>\<open>
  func equalStrided(ref, x []float64, inc int) bool {
      if inc < 0 {
          inc = -inc
      }
      for i, v := range ref {
          if !scalar.Same(x[i*inc], v) {
              return false
          }
      }
      return true
  }
  \<close>
\<close>

primrec equalStrided_loop :: "nat list \<Rightarrow> float64 list \<Rightarrow> float64 list \<Rightarrow> int \<Rightarrow> bool option" where
  "equalStrided_loop [] ref x inc = Some True"
| "equalStrided_loop (i # is) ref x inc =
     do {
       e \<leftarrow> get_at x (int i * inc);
       if \<not> Same e (ref ! i) then Some False else equalStrided_loop is ref x inc
     }"

definition equalStrided :: "float64 list \<Rightarrow> float64 list \<Rightarrow> int \<Rightarrow> bool option" where
  "equalStrided ref x inc0 =
     (let inc = (if inc0 < 0 then - inc0 else inc0)
      in equalStrided_loop [0..<length ref] ref x inc)"

text \<open>
  \<^verbatim>\<open>
  func nonStridedWrite(x []float64, inc int) bool {
      if inc < 0 {
          inc = -inc
      }
      for i, v := range x {
          if i%inc != 0 && !math.IsNaN(v) {
              return true
          }
      }
      return false
  }
  \<close>
  Go's \<^verbatim>\<open>%\<close> truncates towards zero (\<open>smod\<close>) and panics on a zero divisor.
\<close>

primrec nonStridedWrite_loop :: "nat list \<Rightarrow> float64 list \<Rightarrow> int \<Rightarrow> bool option" where
  "nonStridedWrite_loop [] x inc = Some False"
| "nonStridedWrite_loop (i # is) x inc =
     (if inc = 0 then None
      else if int i smod inc \<noteq> 0 \<and> \<not> IsNaN (x ! i) then Some True
      else nonStridedWrite_loop is x inc)"

definition nonStridedWrite :: "float64 list \<Rightarrow> int \<Rightarrow> bool option" where
  "nonStridedWrite x inc0 =
     (let inc = (if inc0 < 0 then - inc0 else inc0)
      in nonStridedWrite_loop [0..<length x] x inc)"

text \<open>
  The contents expected of the strided view \<open>v\<close>: element \<open>i\<close> of \<open>data\<close> at offset
  \<open>i * c\<close>, NaN at every other offset, over \<open>(len data - 1) * c + 1\<close> offsets.
\<close>

definition strided_image :: "float64 list \<Rightarrow> nat \<Rightarrow> float64 list" where
  "strided_image data c =
     map (\<lambda>j. if c dvd j then data ! (j div c) else NaN) [0..<(length data - 1) * c + 1]"

section \<open>Strided guards with a sigil value: guardIncVector and checkValidIncGuard\<close>

text \<open>
  \<^verbatim>\<open>
  func guardIncVector(vec []float64, gdVal float64, inc, gdLen int) (guarded []float64) {
      if inc < 0 {
          inc = -inc
      }
      inrLen := len(vec) * inc
      guarded = make([]float64, inrLen+gdLen*2)
      for i := range guarded {
          guarded[i] = gdVal
      }
      for i, v := range vec {
          guarded[gdLen+i*inc] = v
      }
      return guarded
  }
  \<close>
\<close>

definition guardIncVector :: "float64 list \<Rightarrow> float64 \<Rightarrow> int \<Rightarrow> int \<Rightarrow> float64 list option" where
  "guardIncVector vec gdVal inc0 gdLen =
     (let inc = (if inc0 < 0 then - inc0 else inc0);
          inrLen = int (length vec) * inc
      in do {
        guarded \<leftarrow> make_f64 (inrLen + gdLen * 2);
        forM [0..<length vec]
          (\<lambda>i g. set_at g (gdLen + int i * inc) (vec ! i))
          (map (\<lambda>_. gdVal) guarded)
      })"

text \<open>
  \<^verbatim>\<open>
  func checkValidIncGuard(t *testing.T, vec []float64, gdVal float64, inc, gdLen int) {
      srcLn := len(vec) - 2*gdLen
      for i := range vec {
          switch {
          case scalar.Same(vec[i], gdVal):
              // Correct value
          case (i-gdLen)%inc == 0 && (i-gdLen)/inc < len(vec):
              // Ignore input values
          case i < gdLen:
              t.Errorf("Front guard violated at %d %v", i, vec[:gdLen])
          case i > gdLen+srcLn:
              t.Errorf("Back guard violated at %d %v", i-gdLen-srcLn, vec[gdLen+srcLn:])
          default:
              t.Errorf("Internal guard violated at %d %v", i-gdLen, vec[gdLen:gdLen+srcLn])
          }
      }
  }
  \<close>
  \<^verbatim>\<open>t.Errorf\<close> records a failure and returns, so the loop goes on; the model returns the
  failures in the order they are recorded, each with the two values it prints.
  Go's \<^verbatim>\<open>/\<close> and \<^verbatim>\<open>%\<close> truncate towards zero (\<open>sdiv\<close>, \<open>smod\<close>) and panic on a zero
  divisor.
\<close>

datatype violation =
  FrontGuard int "float64 list"
| BackGuard int "float64 list"
| InternalGuard int "float64 list"

definition checkValidIncGuard_body ::
  "float64 list \<Rightarrow> float64 \<Rightarrow> int \<Rightarrow> int \<Rightarrow> nat \<Rightarrow> violation list \<Rightarrow> violation list option" where
  "checkValidIncGuard_body vec gdVal inc gdLen i errs =
     (let srcLn = int (length vec) - 2 * gdLen in
      if Same (vec ! i) gdVal then Some errs
      else if inc = 0 then None
      else if (int i - gdLen) smod inc = 0 \<and> (int i - gdLen) sdiv inc < int (length vec)
        then Some errs
      else if int i < gdLen
        then do { ctx \<leftarrow> slice vec 0 gdLen; Some (errs @ [FrontGuard (int i) ctx]) }
      else if int i > gdLen + srcLn
        then do { ctx \<leftarrow> slice vec (gdLen + srcLn) (int (length vec));
                  Some (errs @ [BackGuard (int i - gdLen - srcLn) ctx]) }
      else do { ctx \<leftarrow> slice vec gdLen (gdLen + srcLn);
                Some (errs @ [InternalGuard (int i - gdLen) ctx]) })"

definition checkValidIncGuard :: "float64 list \<Rightarrow> float64 \<Rightarrow> int \<Rightarrow> int \<Rightarrow> violation list option" where
  "checkValidIncGuard vec gdVal inc gdLen =
     forM [0..<length vec] (checkValidIncGuard_body vec gdVal inc gdLen) []"

section \<open>Parameter sets: newIncSet and newIncToSet\<close>



text \<open>\<^verbatim>\<open>make([]T, n)\<close> for a struct type \<open>T\<close> whose zero value is \<open>z\<close>.\<close>

definition make_zero :: "'a \<Rightarrow> int \<Rightarrow> 'a list option" where
  "make_zero z n = (if n < 0 then None else Some (replicate (nat n) z))"



section \<open>The approximate-equality oracle: sameApprox\<close>

text \<open>
  \<^verbatim>\<open>
  func sameApprox(a, b, tol float64) bool {
      return scalar.Same(a, b) || scalar.EqualWithinAbsOrRel(a, b, tol, tol)
  }
  \<close>
  Modelled from the spec: \<^verbatim>\<open>scalar.EqualWithinAbsOrRel\<close> of
  \<^verbatim>\<open>gonum.org/v1/gonum/floats/scalar\<close> is not among the source files. The spec (4.3) asks
  for numerical equality within a combined absolute-or-relative tolerance: the values are
  equal, or \<open>|a - b| \<le> tol\<close>, or \<open>|a - b| / max |a| |b| \<le> tol\<close> (with the difference compared
  against \<open>tol\<close> times the smallest normal number when it is below that number). The
  arithmetic on NaN and the infinities follows IEEE 754; on finite values it is exact.
  The only divisor is a maximum of absolute values, so a zero divisor is \<open>+0\<close>.
\<close>

fun fsub :: "float64 \<Rightarrow> float64 \<Rightarrow> float64" where
  "fsub NaN b = NaN"
| "fsub a NaN = NaN"
| "fsub PosInf PosInf = NaN"
| "fsub NegInf NegInf = NaN"
| "fsub PosInf b = PosInf"
| "fsub NegInf b = NegInf"
| "fsub (Fin x) PosInf = NegInf"
| "fsub (Fin x) NegInf = PosInf"
| "fsub (Fin x) (Fin y) = Fin (x - y)"

fun fabs :: "float64 \<Rightarrow> float64" where
  "fabs NaN = NaN"
| "fabs PosInf = PosInf"
| "fabs NegInf = PosInf"
| "fabs (Fin x) = Fin \<bar>x\<bar>"

fun fle :: "float64 \<Rightarrow> float64 \<Rightarrow> bool" where
  "fle NaN b = False"
| "fle a NaN = False"
| "fle NegInf b = True"
| "fle a PosInf = True"
| "fle PosInf b = False"
| "fle a NegInf = False"
| "fle (Fin x) (Fin y) = (x \<le> y)"

text \<open>\<^verbatim>\<open>math.Max\<close>: \<open>+Inf\<close> wins over everything, then NaN.\<close>

fun fmax :: "float64 \<Rightarrow> float64 \<Rightarrow> float64" where
  "fmax PosInf b = PosInf"
| "fmax a PosInf = PosInf"
| "fmax NaN b = NaN"
| "fmax a NaN = NaN"
| "fmax NegInf b = b"
| "fmax a NegInf = a"
| "fmax (Fin x) (Fin y) = Fin (max x y)"

fun fmul :: "float64 \<Rightarrow> float64 \<Rightarrow> float64" where
  "fmul NaN b = NaN"
| "fmul a NaN = NaN"
| "fmul (Fin x) (Fin y) = Fin (x * y)"
| "fmul PosInf PosInf = PosInf"
| "fmul PosInf NegInf = NegInf"
| "fmul NegInf PosInf = NegInf"
| "fmul NegInf NegInf = PosInf"
| "fmul PosInf (Fin y) = (if y = 0 then NaN else if 0 < y then PosInf else NegInf)"
| "fmul NegInf (Fin y) = (if y = 0 then NaN else if 0 < y then NegInf else PosInf)"
| "fmul (Fin x) PosInf = (if x = 0 then NaN else if 0 < x then PosInf else NegInf)"
| "fmul (Fin x) NegInf = (if x = 0 then NaN else if 0 < x then NegInf else PosInf)"

fun fdiv :: "float64 \<Rightarrow> float64 \<Rightarrow> float64" where
  "fdiv NaN b = NaN"
| "fdiv a NaN = NaN"
| "fdiv (Fin x) (Fin y) =
     (if y = 0 then (if x = 0 then NaN else if 0 < x then PosInf else NegInf)
      else Fin (x / y))"
| "fdiv (Fin x) b = Fin 0"
| "fdiv PosInf (Fin y) = (if 0 \<le> y then PosInf else NegInf)"
| "fdiv NegInf (Fin y) = (if 0 \<le> y then NegInf else PosInf)"
| "fdiv a b = NaN"

definition minNormalFloat64 :: float64 where
  "minNormalFloat64 = Fin (1 / 2 ^ 1022)"

definition EqualWithinAbs :: "float64 \<Rightarrow> float64 \<Rightarrow> float64 \<Rightarrow> bool" where
  "EqualWithinAbs a b tol = (feq a b \<or> fle (fabs (fsub a b)) tol)"

definition EqualWithinRel :: "float64 \<Rightarrow> float64 \<Rightarrow> float64 \<Rightarrow> bool" where
  "EqualWithinRel a b tol =
     (if feq a b then True
      else let delta = fabs (fsub a b) in
        if fle delta minNormalFloat64 then fle delta (fmul tol minNormalFloat64)
        else fle (fdiv delta (fmax (fabs a) (fabs b))) tol)"

definition EqualWithinAbsOrRel :: "float64 \<Rightarrow> float64 \<Rightarrow> float64 \<Rightarrow> float64 \<Rightarrow> bool" where
  "EqualWithinAbsOrRel a b absTol relTol = (EqualWithinAbs a b absTol \<or> EqualWithinRel a b relTol)"

definition sameApprox :: "float64 \<Rightarrow> float64 \<Rightarrow> float64 \<Rightarrow> bool" where
  "sameApprox a b tol = (Same a b \<or> EqualWithinAbsOrRel a b tol tol)"

section \<open>The rotation-update test: DlasrTest\<close>

text \<open>
  \<^verbatim>\<open>lapack/testlapack/dlasr.go\<close>. The matrices of this test hold random numbers of
  \<open>[0, 1)\<close>, sines, cosines, zeros and ones: their entries are modelled by real numbers,
  and the rounding of float64 arithmetic is not represented. Dimensions and indices are
  Go \<^verbatim>\<open>int\<close>s, modelled by \<open>int\<close>.
\<close>

datatype Side = Left | Right

datatype Pivot = Variable | Top | Bottom

datatype Direct = Forward | Backward

text \<open>\<^verbatim>\<open>blas64.General\<close>: a dense matrix stored by rows, \<open>Stride\<close> elements from row to row.\<close>

record General =
  Rows :: int
  Cols :: int
  Stride :: int
  Data :: "real list"

definition shape_ok :: "General \<Rightarrow> bool" where
  "shape_ok g =
     (0 \<le> Rows g \<and> 0 \<le> Cols g \<and> max 1 (Cols g) \<le> Stride g \<and>
      (Rows g = 0 \<or> Cols g = 0 \<or> (Rows g - 1) * Stride g + Cols g \<le> int (length (Data g))))"

definition entry :: "General \<Rightarrow> nat \<Rightarrow> nat \<Rightarrow> real" where
  "entry g i j = Data g ! (i * nat (Stride g) + j)"

text \<open>
  Modelled from the spec: \<^verbatim>\<open>blas64.Gemm\<close> is not among the source files. By the spec (6)
  the dense matrix multiply computes \<open>C = alpha*A*B + beta*C\<close> on row-major matrices with
  explicit row and column counts and stride; the test only calls it without transposition.
  Elements of \<open>C\<close> outside its \<open>Rows \<times> Cols\<close> window are left as they are, and a call whose
  shapes do not fit panics.
\<close>

definition Gemm :: "real \<Rightarrow> General \<Rightarrow> General \<Rightarrow> real \<Rightarrow> General \<Rightarrow> General option" where
  "Gemm alpha a b beta c =
     (if \<not> (shape_ok a \<and> shape_ok b \<and> shape_ok c \<and>
             Cols a = Rows b \<and> Rows c = Rows a \<and> Cols c = Cols b)
      then None
      else Some (c\<lparr>Data :=
        map (\<lambda>idx.
               let i = idx div nat (Stride c); j = idx mod nat (Stride c) in
               if i < nat (Rows c) \<and> j < nat (Cols c)
               then alpha * (\<Sum>l\<leftarrow>[0..<nat (Cols a)]. entry a i l * entry b l j)
                    + beta * (Data c ! idx)
               else Data c ! idx)
          [0..<length (Data c)]\<rparr>))"

text \<open>
  Modelled from the spec: \<^verbatim>\<open>floats.EqualApprox\<close> is not among the source files. By the
  spec (4.4) the dense result is compared with the output by the approximate-equality
  oracle, element by element, with one verdict for the whole slice; slices of different
  lengths are not equal.
\<close>

definition EqualApprox :: "real list \<Rightarrow> real list \<Rightarrow> real \<Rightarrow> bool" where
  "EqualApprox s1 s2 tol =
     (length s1 = length s2 \<and>
      list_all2 (\<lambda>a b. EqualWithinAbsOrRel (Fin a) (Fin b) (Fin tol) (Fin tol)) s1 s2)"

text \<open>
  The body of the loop over the plane rotations, lines 105 to 130: \<open>P\<^sub>k\<close> is set to the
  identity and four of its entries are overwritten according to the pivot.
  \<^verbatim>\<open>
  for i := range p.Data {
      pk.Data[i] = 0
  }
  for i := 0; i < pSize; i++ {
      pk.Data[i*p.Stride+i] = 1
  }
  switch pivot {
  case lapack.Variable:
      pk.Data[k*p.Stride+k] = c[k]
      pk.Data[k*p.Stride+k+1] = s[k]
      pk.Data[(k+1)*p.Stride+k] = -s[k]
      pk.Data[(k+1)*p.Stride+k+1] = c[k]
  case lapack.Top:
      pk.Data[0] = c[k]
      pk.Data[k+1] = s[k]
      pk.Data[(k+1)*p.Stride] = -s[k]
      pk.Data[(k+1)*p.Stride+k+1] = c[k]
  case lapack.Bottom:
      pk.Data[(pSize-1-k)*p.Stride+pSize-k-1] = c[k]
      pk.Data[(pSize-1-k)*p.Stride+pSize-1] = s[k]
      pk.Data[(pSize-1)*p.Stride+pSize-1-k] = -s[k]
      pk.Data[(pSize-1)*p.Stride+pSize-1] = c[k]
  }
  \<close>
\<close>

definition DlasrTest_pk ::
  "Pivot \<Rightarrow> int \<Rightarrow> int \<Rightarrow> nat \<Rightarrow> real list \<Rightarrow> real list \<Rightarrow> nat \<Rightarrow> real list \<Rightarrow> real list option" where
  "DlasrTest_pk pivot pSize stride plen c s k pkData =
     do {
       d0 \<leftarrow> forM [0..<plen] (\<lambda>i d. set_at d (int i) 0) pkData;
       d1 \<leftarrow> forM [0..<nat pSize] (\<lambda>i d. set_at d (int i * stride + int i) 1) d0;
       ck \<leftarrow> get_at c (int k);
       sk \<leftarrow> get_at s (int k);
       (case pivot of
          Variable \<Rightarrow> do {
            d2 \<leftarrow> set_at d1 (int k * stride + int k) ck;
            d3 \<leftarrow> set_at d2 (int k * stride + int k + 1) sk;
            d4 \<leftarrow> set_at d3 ((int k + 1) * stride + int k) (- sk);
            set_at d4 ((int k + 1) * stride + int k + 1) ck
          }
        | Top \<Rightarrow> do {
            d2 \<leftarrow> set_at d1 0 ck;
            d3 \<leftarrow> set_at d2 (int k + 1) sk;
            d4 \<leftarrow> set_at d3 ((int k + 1) * stride) (- sk);
            set_at d4 ((int k + 1) * stride + int k + 1) ck
          }
        | Bottom \<Rightarrow> do {
            d2 \<leftarrow> set_at d1 ((pSize - 1 - int k) * stride + pSize - int k - 1) ck;
            d3 \<leftarrow> set_at d2 ((pSize - 1 - int k) * stride + pSize - 1) sk;
            d4 \<leftarrow> set_at d3 ((pSize - 1) * stride + pSize - 1 - int k) (- sk);
            set_at d4 ((pSize - 1) * stride + pSize - 1) ck
          })
     }"

text \<open>
  The accumulation, lines 79 to 138. \<open>P\<close>, \<open>P\<^sub>k\<close> and \<open>ptmp\<close> are \<open>pSize \<times> pSize\<close> with stride
  \<open>pSize\<close>; \<open>P\<close> and \<open>ptmp\<close> start as the identity, and for each \<open>k\<close> of \<^verbatim>\<open>range s\<close>
  \<^verbatim>\<open>
  if direct == lapack.Forward {
      blas64.Gemm(blas.NoTrans, blas.NoTrans, 1, pk, ptmp, 0, p)
  } else {
      blas64.Gemm(blas.NoTrans, blas.NoTrans, 1, ptmp, pk, 0, p)
  }
  copy(ptmp.Data, p.Data)
  \<close>
  The state of the loop is the data of \<open>P\<close>, of \<open>P\<^sub>k\<close> and of \<open>ptmp\<close>.
\<close>

definition square :: "int \<Rightarrow> real list \<Rightarrow> General" where
  "square pSize d = \<lparr>Rows = pSize, Cols = pSize, Stride = pSize, Data = d\<rparr>"

definition DlasrTest_init_body :: "int \<Rightarrow> nat \<Rightarrow> real list \<times> real list \<Rightarrow> (real list \<times> real list) option" where
  "DlasrTest_init_body stride i st =
     (case st of (p, ptmp) \<Rightarrow>
        do {
          p' \<leftarrow> set_at p (int i * stride + int i) 1;
          ptmp' \<leftarrow> set_at ptmp (int i * stride + int i) 1;
          Some (p', ptmp')
        })"

definition DlasrTest_step ::
  "Pivot \<Rightarrow> Direct \<Rightarrow> int \<Rightarrow> real list \<Rightarrow> real list \<Rightarrow> nat \<Rightarrow>
   real list \<times> real list \<times> real list \<Rightarrow> (real list \<times> real list \<times> real list) option" where
  "DlasrTest_step pivot direct pSize c s k st =
     (case st of (p, pk, ptmp) \<Rightarrow>
        do {
          pk' \<leftarrow> DlasrTest_pk pivot pSize pSize (length p) c s k pk;
          P \<leftarrow> (if direct = Forward
                then Gemm 1 (square pSize pk') (square pSize ptmp) 0 (square pSize p)
                else Gemm 1 (square pSize ptmp) (square pSize pk') 0 (square pSize p));
          Some (Data P, pk', copy ptmp (Data P))
        })"

definition DlasrTest_accumulate ::
  "Pivot \<Rightarrow> Direct \<Rightarrow> int \<Rightarrow> real list \<Rightarrow> real list \<Rightarrow> General option" where
  "DlasrTest_accumulate pivot direct pSize c s =
     do {
       p0 \<leftarrow> make_zero (0::real) (pSize * pSize);
       pk0 \<leftarrow> make_zero (0::real) (pSize * pSize);
       ptmp0 \<leftarrow> make_zero (0::real) (pSize * pSize);
       (p1, ptmp1) \<leftarrow> forM [0..<nat pSize] (DlasrTest_init_body pSize) (p0, ptmp0);
       (p, pk, ptmp) \<leftarrow> forM [0..<length s] (DlasrTest_step pivot direct pSize c s) (p1, pk0, ptmp1);
       Some (square pSize p)
     }"

text \<open>
  One trial of \<open>DlasrTest\<close> (lines 38 to 162) for an implementation \<open>impl\<close> of \<^verbatim>\<open>Dlasr\<close>.
  \<open>rnd i\<close> is the \<open>i\<close>-th number that \<^verbatim>\<open>rnd.Float64()\<close> returns in the trial. \<open>impl\<close> gets the
  slice \<open>a\<close> and returns what it leaves in it; it cannot change the length of the caller's
  slice, so its result is copied into \<open>a\<close>. The report keeps what the trial handed to
  \<open>impl\<close>, what \<open>impl\<close> left in \<open>a\<close>, the reference \<^verbatim>\<open>newA.Data\<close>, the slice \<open>a\<close> that is
  compared with it, and whether \<^verbatim>\<open>t.Errorf("A update mismatch")\<close> is reached.
\<close>

record trial_report =
  dlasr_input :: "real list"
  dlasr_output :: "real list"
  reference :: "real list"
  compared :: "real list"
  mismatch :: bool

type_synonym Dlasrer =
  "Side \<Rightarrow> Pivot \<Rightarrow> Direct \<Rightarrow> int \<Rightarrow> int \<Rightarrow> real list \<Rightarrow> real list \<Rightarrow> real list \<Rightarrow> int \<Rightarrow> real list"

definition DlasrTest_trial ::
  "Dlasrer \<Rightarrow> (nat \<Rightarrow> real) \<Rightarrow> Side \<Rightarrow> Pivot \<Rightarrow> Direct \<Rightarrow> int \<Rightarrow> int \<Rightarrow> int \<Rightarrow> trial_report option" where
  "DlasrTest_trial impl rnd side pivot direct m n lda0 =
     (let lda = (if lda0 = 0 then n else lda0) in
      do {
        a0 \<leftarrow> make_zero (0::real) (m * lda);
        let a1 = map rnd [0..<length a0];
        sz \<leftarrow> make_zero (0::real) (if side = Left then m - 1 else n - 1);
        let thetas = map (\<lambda>k. rnd (length a1 + k) * 2 * pi) [0..<length sz];
        let s = map sin thetas;
        let c = map cos thetas;
        aCopy \<leftarrow> make_zero (0::real) (int (length a1));
        let a2 = copy a1 aCopy;
        let a3 = copy a2 (impl side pivot direct m n c s a2 lda);
        let pSize = (if side = Right then n else m);
        p \<leftarrow> DlasrTest_accumulate pivot direct pSize c s;
        aMatData \<leftarrow> make_zero (0::real) (m * lda);
        let aMat = \<lparr>Rows = m, Cols = n, Stride = lda, Data = aMatData\<rparr>;
        let a4 = copy a3 aCopy;
        newAData \<leftarrow> make_zero (0::real) (m * lda);
        let newA0 = \<lparr>Rows = m, Cols = n, Stride = lda, Data = newAData\<rparr>;
        newA \<leftarrow> (if side = Left then Gemm 1 p aMat 0 newA0 else Gemm 1 aMat p 0 newA0);
        Some \<lparr>dlasr_input = a2, dlasr_output = a3, reference = Data newA, compared = a4,
              mismatch = (\<not> EqualApprox (Data newA) a4 (1 / 10 ^ 12))\<rparr>
      })"

text \<open>
  The products the accumulation is compared with: \<open>n \<times> n\<close> matrices stored by rows
  without padding, the identity, the matrix product, and the product of a list of matrices
  in the order of the list.
\<close>

definition ident :: "nat \<Rightarrow> real list" where
  "ident n = map (\<lambda>idx. if idx div n = idx mod n then 1 else 0) [0..<n * n]"

definition mat_mul :: "nat \<Rightarrow> real list \<Rightarrow> real list \<Rightarrow> real list" where
  "mat_mul n A B =
     map (\<lambda>idx. \<Sum>l\<leftarrow>[0..<n]. A ! (idx div n * n + l) * B ! (l * n + idx mod n)) [0..<n * n]"

definition mat_prod :: "nat \<Rightarrow> real list list \<Rightarrow> real list" where
  "mat_prod n Ps = foldr (mat_mul n) Ps (ident n)"

text \<open>
  The elementary matrix of rotation \<open>k\<close> with cosine \<open>ck\<close> and sine \<open>sk\<close>: the identity with
  four entries overridden, placed by the pivot policy (spec 4.4, step 1).
\<close>

definition elementary :: "Pivot \<Rightarrow> nat \<Rightarrow> real \<Rightarrow> real \<Rightarrow> nat \<Rightarrow> real list" where
  "elementary pivot n ck sk k =
     (case pivot of
        Variable \<Rightarrow>
          (ident n)[k * n + k := ck, k * n + k + 1 := sk,
                    (k + 1) * n + k := - sk, (k + 1) * n + k + 1 := ck]
      | Top \<Rightarrow>
          (ident n)[0 := ck, k + 1 := sk, (k + 1) * n := - sk, (k + 1) * n + k + 1 := ck]
      | Bottom \<Rightarrow>
          (ident n)[(n - 1 - k) * n + (n - 1 - k) := ck, (n - 1 - k) * n + (n - 1) := sk,
                    (n - 1) * n + (n - 1 - k) := - sk, (n - 1) * n + (n - 1) := ck])"

text \<open>
  The accumulator after \<open>K\<close> rotations, as the loop builds it: from the identity, each
  elementary matrix is multiplied in from the left (Forward) or from the right (Backward).
\<close>

definition accumulated :: "Pivot \<Rightarrow> Direct \<Rightarrow> nat \<Rightarrow> real list \<Rightarrow> real list \<Rightarrow> nat \<Rightarrow> real list" where
  "accumulated pivot direct n c s K =
     foldl (\<lambda>acc P. if direct = Forward then mat_mul n P acc else mat_mul n acc P) (ident n)
       (map (\<lambda>k. elementary pivot n (c ! k) (s ! k) k) [0..<K])"

text \<open>A \<^verbatim>\<open>Dlasr\<close> that is wrong on purpose: it overwrites every element of \<open>a\<close> with 1.\<close>

definition wrong_Dlasr :: Dlasrer where
  "wrong_Dlasr side pivot direct m n c s a lda = map (\<lambda>_. 1) a"

text \<open>The dimensions \<open>(m, n, lda)\<close> that \<open>DlasrTest\<close> runs, lines 27 to 37; \<open>lda = 0\<close> stands for \<open>n\<close>.\<close>

definition DlasrTest_table :: "(int \<times> int \<times> int) list" where
  "DlasrTest_table = [(5, 5, 0), (5, 10, 0), (10, 5, 0), (5, 5, 20), (5, 10, 20), (10, 5, 20)]"

section \<open>Basic facts\<close>

lemma Same_iff: "Same a b \<longleftrightarrow> a = b"
  by (auto simp: Same_def feq_def IsNaN_def)

lemma forM_append: "forM (xs @ ys) f s = Option.bind (forM xs f s) (forM ys f)"
  by (induction xs arbitrary: s) (auto split: bind_splits)

lemma forM_single: "forM [x] f = f x"
proof
  fix s show "forM [x] f s = f x s"
    by (cases "f x s") simp_all
qed

lemma forM_snoc: "forM (xs @ [x]) f s = Option.bind (forM xs f s) (f x)"
  by (simp add: forM_append forM_single)

section \<open>The unit-stride round trip\<close>






section \<open>Sign of the stride, empty data and the concrete sigil scenario\<close>

lemma int64_numeral:
  "int64 x = (x + 9223372036854775808) mod 18446744073709551616 - 9223372036854775808"
  by (simp add: int64_def)

lemma int64_id: "- 9223372036854775808 \<le> x \<Longrightarrow> x < 9223372036854775808 \<Longrightarrow> int64 x = x"
  by (simp add: int64_numeral)

lemma int64_high: "9223372036854775808 \<le> x \<Longrightarrow> x < 27670116110564327424 \<Longrightarrow> int64 x = x - 18446744073709551616"
proof -
  assume a: "9223372036854775808 \<le> x" "x < 27670116110564327424"
  have "(x + 9223372036854775808) mod 18446744073709551616 = x + 9223372036854775808 - 18446744073709551616"
    by (rule int_mod_pos_eq[where q = 1]) (use a in simp_all)
  then show ?thesis by (simp add: int64_numeral)
qed

lemma stride_of_small: "\<bar>x\<bar> < 9223372036854775808 \<Longrightarrow> stride_of x = \<bar>x\<bar>"
proof -
  assume a: "\<bar>x\<bar> < 9223372036854775808"
  have "int64 x = x" by (rule int64_id) (use a in linarith)+
  moreover have "int64 (- x) = - x" by (rule int64_id) (use a in linarith)+
  ultimately show ?thesis by (simp add: stride_of_def Let_def)
qed

lemma stride_of_least: "\<bar>x\<bar> = 9223372036854775808 \<Longrightarrow> stride_of x = - 9223372036854775808"
proof -
  assume "\<bar>x\<bar> = 9223372036854775808"
  then have "x = 9223372036854775808 \<or> x = - 9223372036854775808" by linarith
  then show ?thesis by (auto simp: stride_of_def int64_numeral Let_def)
qed

lemma stride_of_neg: "\<bar>x\<bar> \<le> 9223372036854775808 \<Longrightarrow> stride_of (- x) = stride_of x"
proof -
  assume "\<bar>x\<bar> \<le> 9223372036854775808"
  then consider "\<bar>x\<bar> < 9223372036854775808" | "\<bar>x\<bar> = 9223372036854775808" by linarith
  then show ?thesis
  proof cases
    case 1
    then have "\<bar>- x\<bar> < 9223372036854775808" by simp
    with 1 show ?thesis by (simp only: stride_of_small abs_minus_cancel)
  next
    case 2
    then have "\<bar>- x\<bar> = 9223372036854775808" by simp
    with 2 show ?thesis by (simp only: stride_of_least)
  qed
qed

lemma newGuardedVector_whole_stride:
  "newGuardedVector_whole data inc0 =
     (if 9223372036854775808 < \<bar>inc0\<bar> then None
      else
        let inc = stride_of inc0;
            guard = int64 (2 * inc);
            size = int64 (int64 (int64 (int (length data) - 1) * inc) + 1)
        in do {
          whole \<leftarrow> make_f64 (int64 (size + int64 (2 * guard)));
          v \<leftarrow> slice whole guard (int64 (int (length whole) - guard));
          whole' \<leftarrow> forM [0..<length data]
                      (newGuardedVector_store data inc guard (int (length v)))
                      (map (\<lambda>_. NaN) whole);
          Some (whole', guard)
        })"
  by (simp add: newGuardedVector_whole_def stride_of_def Let_def)

lemma upt_3: "[0..<3] = [0, 1, 2]"
  by (simp add: upt_rec)

text \<open>
  C9. The guarded-buffer builders do not see the sign of the stride: \<open>newGuardedVector\<close>
  returns the same three slices, and \<open>guardIncVector\<close> the same buffer, for \<open>inc\<close> and
  \<open>- inc\<close> (a panic for one is a panic for the other).
\<close>

theorem stride_sign_insensitive:
  "newGuardedVector data (- inc) = newGuardedVector data inc \<and>
   guardIncVector vec gdVal (- inc) gdLen = guardIncVector vec gdVal inc gdLen"
proof -
  have abs: "(if - inc < 0 then - (- inc) else - inc) = (if inc < 0 then - inc else inc)"
    by simp
  have "newGuardedVector_whole data (- inc) = newGuardedVector_whole data inc"
  proof (cases "9223372036854775808 < \<bar>inc\<bar>")
    case True
    then show ?thesis by (simp add: newGuardedVector_whole_stride)
  next
    case False
    then have "stride_of (- inc) = stride_of inc" by (intro stride_of_neg) simp
    then show ?thesis by (simp add: newGuardedVector_whole_stride)
  qed
  moreover have "guardIncVector vec gdVal (- inc) gdLen = guardIncVector vec gdVal inc gdLen"
    unfolding guardIncVector_def abs ..
  ultimately show ?thesis
    by (simp add: newGuardedVector_def)
qed

lemma int64_add_right: "int64 (a + int64 b) = int64 (a + b)"
proof -
  have "(a + ((b + 9223372036854775808) mod 18446744073709551616 - 9223372036854775808) + 9223372036854775808) mod 18446744073709551616 = (a + (b + 9223372036854775808) mod 18446744073709551616) mod 18446744073709551616"
    by simp
  also have "\<dots> = (a + (b + 9223372036854775808)) mod 18446744073709551616"
    by (rule mod_add_right_eq)
  finally show ?thesis by (simp add: int64_numeral add.assoc)
qed

lemma newGuardedVector_whole_empty_2: "newGuardedVector_whole [] 2 = None"
  apply (simp add: newGuardedVector_whole_def)
  apply (simp add: int64_id)
  apply (simp add: make_f64_def)
  apply (simp add: int64_id slice_def)
  done

text \<open>
  C3, as stated, fails: with an empty \<open>data\<close> and stride 2 the slice expression
  \<^verbatim>\<open>whole[guard : len(whole)-guard]\<close> is \<^verbatim>\<open>whole[4:3]\<close> and the function panics.
\<close>

theorem newGuardedVector_empty_counterexample:
  "newGuardedVector [] 2 = None"
  by (simp add: newGuardedVector_def newGuardedVector_whole_empty_2)

lemma newGuardedVector_whole_empty_1:
  assumes "inc = 1 \<or> inc = - 1"
  shows "newGuardedVector_whole [] inc = Some ([NaN, NaN, NaN, NaN], 2)"
proof -
  have st: "stride_of inc = 1" using assms by (auto simp: stride_of_small)
  have le: "\<not> 9223372036854775808 < \<bar>inc\<bar>" using assms by auto
  show ?thesis
    unfolding newGuardedVector_whole_stride st Let_def
    apply (simp only: le if_False)
    apply (simp add: int64_id)
    apply (simp add: make_f64_def)
    apply (simp add: int64_id slice_def numeral_eq_Suc)
    done
qed

lemma newGuardedVector_whole_empty_None:
  assumes "2 \<le> \<bar>inc\<bar>"
  shows "newGuardedVector_whole [] inc = None"
proof -
  consider "9223372036854775808 < \<bar>inc\<bar>" | "\<bar>inc\<bar> = 9223372036854775808" | "\<bar>inc\<bar> < 4611686018427387904"
    | "4611686018427387904 \<le> \<bar>inc\<bar>" "\<bar>inc\<bar> < 9223372036854775808"
    by linarith
  then show ?thesis
  proof cases
    case 1
    then show ?thesis by (simp add: newGuardedVector_whole_stride)
  next
    case 2
    have st: "stride_of inc = - 9223372036854775808" by (rule stride_of_least[OF 2])
    have le: "\<not> 9223372036854775808 < \<bar>inc\<bar>" using 2 by simp
    have g: "int64 (2 * - 9223372036854775808) = 0" by (simp add: int64_numeral)
    have m1: "int64 (int (length ([]::float64 list)) - 1) = - 1" by (simp add: int64_id)
    have m2: "int64 (- 1 * - 9223372036854775808) = - 9223372036854775808" by (simp add: int64_numeral)
    have sz: "int64 (- 9223372036854775808 + 1) = - 9223372036854775807" by (simp add: int64_id)
    have g2: "int64 (2 * 0) = 0" by (simp add: int64_id)
    have tot: "int64 (- 9223372036854775807 + 0) = - 9223372036854775807" by (simp add: int64_id)
    have mk: "make_f64 (- 9223372036854775807) = None" by (simp add: make_f64_def)
    show ?thesis
      unfolding newGuardedVector_whole_stride st Let_def g m1 m2 sz g2 tot mk
      by (simp only: le if_False Option.bind.simps)
  next
    case 3
    define i where "i = \<bar>inc\<bar>"
    have i: "2 \<le> i" "i < 4611686018427387904" using assms 3 by (simp_all add: i_def)
    have le: "\<not> 9223372036854775808 < \<bar>inc\<bar>" using 3 by simp
    have st: "stride_of inc = i" unfolding i_def by (rule stride_of_small) (use 3 in linarith)
    have g: "int64 (2 * i) = 2 * i" by (rule int64_id) (use i in linarith)+
    have m1: "int64 (int (length ([]::float64 list)) - 1) = - 1" by (simp add: int64_id)
    have m2: "int64 (- 1 * i) = - i" using int64_id[of "- i"] i by simp
    have sz: "int64 (- i + 1) = 1 - i" using int64_id[of "1 - i"] i by simp
    have tot0: "int64 (1 - i + int64 (2 * (2 * i))) = int64 (3 * i + 1)"
    proof -
      have "1 - i + 2 * (2 * i) = 3 * i + 1" by simp
      then show ?thesis by (simp only: int64_add_right)
    qed
    show ?thesis
    proof (cases "3 * i + 1 < 9223372036854775808")
      case True
      have tot: "int64 (3 * i + 1) = 3 * i + 1" using int64_id[of "3 * i + 1"] i True by simp
      have mk: "make_f64 (3 * i + 1) = Some (replicate (nat (3 * i + 1)) (Fin 0))"
        using i by (simp add: make_f64_def)
      have "int (length (replicate (nat (3 * i + 1)) (Fin 0))) - 2 * i = i + 1"
        using i by simp
      then have hi: "int64 (int (length (replicate (nat (3 * i + 1)) (Fin 0))) - 2 * i) = i + 1"
        using int64_id[of "i + 1"] i by simp
      have sl: "slice (replicate (nat (3 * i + 1)) (Fin 0)) (2 * i) (i + 1) = None"
        using i by (simp add: slice_def)
      show ?thesis
        unfolding newGuardedVector_whole_stride st Let_def g m1 m2 sz tot0 tot mk
        by (simp only: le if_False Option.bind.simps hi sl)
    next
      case False
      have tot: "int64 (3 * i + 1) = 3 * i + 1 - 18446744073709551616"
        by (rule int64_high) (use i False in linarith)+
      have mk: "make_f64 (3 * i + 1 - 18446744073709551616) = None"
        using i by (simp add: make_f64_def)
      show ?thesis
        unfolding newGuardedVector_whole_stride st Let_def g m1 m2 sz tot0 tot mk
        by (simp only: le if_False Option.bind.simps)
    qed
  next
    case 4
    define i where "i = \<bar>inc\<bar>"
    have i: "4611686018427387904 \<le> i" "i < 9223372036854775808" using 4 by (simp_all add: i_def)
    have le: "\<not> 9223372036854775808 < \<bar>inc\<bar>" using 4 by simp
    have st: "stride_of inc = i" unfolding i_def by (rule stride_of_small) (use 4 in linarith)
    have g: "int64 (2 * i) = 2 * i - 18446744073709551616"
      by (rule int64_high) (use i in linarith)+
    have neg: "2 * i - 18446744073709551616 < 0" using i by simp
    have sl: "slice w (2 * i - 18446744073709551616) h = None" for w :: "float64 list" and h
      using neg by (simp add: slice_def)
    have b: "Option.bind m (\<lambda>whole. Option.bind (slice whole (2 * i - 18446744073709551616) (h whole)) (k whole)) = None"
      for m :: "float64 list option" and h
        and k :: "float64 list \<Rightarrow> float64 list \<Rightarrow> (float64 list \<times> int) option"
      by (cases m) (simp_all add: sl)
    show ?thesis
      unfolding newGuardedVector_whole_stride st Let_def g
      by (simp only: le if_False) (rule b)
  qed
qed

text \<open>
  C3, amended. For an empty \<open>data\<close>, \<open>newGuardedVector\<close> returns only when the stride has
  magnitude 1: the result is then an empty view between two NaN-filled guards of length 2.
  For every stride of magnitude 2 or more it panics.
\<close>

theorem newGuardedVector_empty:
  "(\<bar>inc\<bar> = 1 \<longrightarrow> newGuardedVector [] inc = Some ([], [NaN, NaN], [NaN, NaN])) \<and>
   (2 \<le> \<bar>inc\<bar> \<longrightarrow> newGuardedVector [] inc = None)"
proof (intro conjI impI)
  assume "\<bar>inc\<bar> = 1"
  then have "inc = 1 \<or> inc = - 1" by linarith
  then have "newGuardedVector_whole [] inc = Some ([NaN, NaN, NaN, NaN], 2)"
    by (rule newGuardedVector_whole_empty_1)
  then show "newGuardedVector [] inc = Some ([], [NaN, NaN], [NaN, NaN])"
    by (simp add: newGuardedVector_def int64_id slice_def)
next
  assume big: "2 \<le> \<bar>inc\<bar>"
  then show "newGuardedVector [] inc = None"
    by (simp add: newGuardedVector_def newGuardedVector_whole_empty_None)
qed

theorem newGuardedVector_empty_witness:
  "\<bar>1::int\<bar> = 1 \<and> newGuardedVector [] 1 = Some ([], [NaN, NaN], [NaN, NaN]) \<and>
   2 \<le> \<bar>- 3::int\<bar> \<and> newGuardedVector [] (- 3) = None"
  using newGuardedVector_empty[of 1] newGuardedVector_empty[of "- 3"] by simp

text \<open>
  C5. Guard length 4, stride 3, data \<open>[1.0, 2.0, 3.0]\<close>, any sentinel value: the buffer of
  \<open>guardIncVector\<close> has length 17, holds the data at offsets 4, 7 and 10 and the sentinel at
  every other offset, and \<open>checkValidIncGuard\<close> on this untouched buffer records no
  violation.
\<close>

theorem guardIncVector_scenario:
  "guardIncVector [Fin 1, Fin 2, Fin 3] gdVal 3 4 =
     Some [gdVal, gdVal, gdVal, gdVal, Fin 1, gdVal, gdVal, Fin 2, gdVal, gdVal, Fin 3,
           gdVal, gdVal, gdVal, gdVal, gdVal, gdVal] \<and>
   length [gdVal, gdVal, gdVal, gdVal, Fin 1, gdVal, gdVal, Fin 2, gdVal, gdVal, Fin 3,
           gdVal, gdVal, gdVal, gdVal, gdVal, gdVal] = 17 \<and>
   checkValidIncGuard
     [gdVal, gdVal, gdVal, gdVal, Fin 1, gdVal, gdVal, Fin 2, gdVal, gdVal, Fin 3,
      gdVal, gdVal, gdVal, gdVal, gdVal, gdVal] gdVal 3 4 = Some []"
proof (intro conjI)
  show "guardIncVector [Fin 1, Fin 2, Fin 3] gdVal 3 4 =
     Some [gdVal, gdVal, gdVal, gdVal, Fin 1, gdVal, gdVal, Fin 2, gdVal, gdVal, Fin 3,
           gdVal, gdVal, gdVal, gdVal, gdVal, gdVal]"
    by (simp add: guardIncVector_def make_f64_def set_at_def upt_3 numeral_eq_Suc)
next
  have upt17: "[0..<17] = [0,1,2,3,4,5,6,7,8,9,10,11,12,13,14,15,16]"
    by (simp add: upt_rec)
  show "checkValidIncGuard
     [gdVal, gdVal, gdVal, gdVal, Fin 1, gdVal, gdVal, Fin 2, gdVal, gdVal, Fin 3,
      gdVal, gdVal, gdVal, gdVal, gdVal, gdVal] gdVal 3 4 = Some []"
    by (simp add: checkValidIncGuard_def checkValidIncGuard_body_def upt17 Same_iff
        signed_modulo_int_def signed_divide_int_def)
qed simp

text \<open>
  C2. The buffer of \<open>guardIncVector\<close> for data \<open>[1.0, 2.0]\<close>, sentinel 5, stride 2 and guard
  length 2 has its data at offsets 2 and 4. When all four guard cells (offsets 0, 1, 6, 7) are
  overwritten with 9, \<open>checkValidIncGuard\<close> records offset 1 of the front guard and offset 1
  of the back guard only: offsets 0 and 6 satisfy \<^verbatim>\<open>(i-gdLen)%inc == 0\<close> and
  \<^verbatim>\<open>(i-gdLen)/inc < len(vec)\<close> and are skipped as if they were data slots.
\<close>

theorem checkValidIncGuard_misses_guard_cells:
  "guardIncVector [Fin 1, Fin 2] (Fin 5) 2 2 =
     Some [Fin 5, Fin 5, Fin 1, Fin 5, Fin 2, Fin 5, Fin 5, Fin 5] \<and>
   checkValidIncGuard [Fin 9, Fin 9, Fin 1, Fin 5, Fin 2, Fin 5, Fin 9, Fin 9] (Fin 5) 2 2 =
     Some [FrontGuard 1 [Fin 9, Fin 9], BackGuard 1 [Fin 9, Fin 9]]"
proof
  show "guardIncVector [Fin 1, Fin 2] (Fin 5) 2 2 =
     Some [Fin 5, Fin 5, Fin 1, Fin 5, Fin 2, Fin 5, Fin 5, Fin 5]"
    by (simp add: guardIncVector_def make_f64_def set_at_def upt_rec numeral_eq_Suc)
next
  have upt8: "[0..<8] = [0,1,2,3,4,5,6,7]"
    by (simp add: upt_rec)
  show "checkValidIncGuard [Fin 9, Fin 9, Fin 1, Fin 5, Fin 2, Fin 5, Fin 9, Fin 9] (Fin 5) 2 2 =
     Some [FrontGuard 1 [Fin 9, Fin 9], BackGuard 1 [Fin 9, Fin 9]]"
    by (simp add: checkValidIncGuard_def checkValidIncGuard_body_def upt8 Same_iff
        signed_modulo_int_def signed_divide_int_def slice_def)
qed

text \<open>With stride 1 every offset passes the data-slot test, so nothing is ever recorded.\<close>

lemma checkValidIncGuard_unit_stride_blind:
  "checkValidIncGuard [Fin 9, Fin 1, Fin 9] (Fin 5) 1 1 = Some []"
  by (simp add: checkValidIncGuard_def checkValidIncGuard_body_def upt_3 Same_iff
      signed_modulo_int_def signed_divide_int_def slice_def)

section \<open>Layout of the strided guarded vector\<close>

lemma strided_slot_iff:
  assumes "0 < (c::nat)"
  shows "j = g + k * c \<longleftrightarrow> g \<le> j \<and> c dvd (j - g) \<and> (j - g) div c = k"
proof
  assume "j = g + k * c"
  then show "g \<le> j \<and> c dvd (j - g) \<and> (j - g) div c = k"
    using assms by simp
next
  assume h: "g \<le> j \<and> c dvd (j - g) \<and> (j - g) div c = k"
  then have "j - g = k * c" by auto
  with h show "j = g + k * c" by linarith
qed

lemma newGuardedVector_store_loop:
  assumes "\<And>i. i < k \<Longrightarrow> i * c < vlen" and "g + vlen \<le> length W0" and "0 < c"
    and "int vlen < 9223372036854775808"
  shows "forM [0..<k] (newGuardedVector_store data (int c) (int g) (int vlen)) W0 =
     Some (map (\<lambda>j. if g \<le> j \<and> c dvd (j - g) \<and> (j - g) div c < k
                     then data ! ((j - g) div c) else W0 ! j) [0..<length W0])"
  using assms(1)
proof (induction k)
  case 0
  have "W0 = map (\<lambda>j. if g \<le> j \<and> c dvd (j - g) \<and> (j - g) div c < 0
                     then data ! ((j - g) div c) else W0 ! j) [0..<length W0]"
    by (intro nth_equalityI) simp_all
  then show ?case by simp
next
  case (Suc k)
  let ?S = "map (\<lambda>j. if g \<le> j \<and> c dvd (j - g) \<and> (j - g) div c < k
                     then data ! ((j - g) div c) else W0 ! j) [0..<length W0]"
  have prev: "forM [0..<k] (newGuardedVector_store data (int c) (int g) (int vlen)) W0 = Some ?S"
    using Suc by simp
  have kc: "k * c < vlen" using Suc.prems[of k] by simp
  then have inr: "g + k * c < length W0" using assms(2) by linarith
  have ikc: "int k * int c < int vlen"
    using kc by (metis of_nat_less_iff of_nat_mult)
  have idx: "nat (int g + int k * int c) = g + k * c"
    by (simp add: nat_add_distrib nat_mult_distrib)
  have bnd: "int g + int k * int c < int (length W0)"
    using inr by (metis of_nat_add of_nat_less_iff of_nat_mult)
  have "0 \<le> int k * int c" by simp
  then have wrap: "int64 (int k * int c) = int k * int c"
    using ikc assms(4) by (intro int64_id) linarith+
  have step: "newGuardedVector_store data (int c) (int g) (int vlen) k ?S =
              Some (?S[g + k * c := data ! k])"
    unfolding newGuardedVector_store_def wrap Let_def
    using ikc bnd by (simp add: set_at_def idx)
  have "?S[g + k * c := data ! k] =
        map (\<lambda>j. if g \<le> j \<and> c dvd (j - g) \<and> (j - g) div c < Suc k
                     then data ! ((j - g) div c) else W0 ! j) [0..<length W0]"
  proof (intro nth_equalityI)
    fix j assume "j < length (?S[g + k * c := data ! k])"
    then have j: "j < length W0" by simp
    show "?S[g + k * c := data ! k] ! j =
        map (\<lambda>j. if g \<le> j \<and> c dvd (j - g) \<and> (j - g) div c < Suc k
                     then data ! ((j - g) div c) else W0 ! j) [0..<length W0] ! j"
    proof (cases "j = g + k * c")
      case True
      then show ?thesis using j assms(3) by simp
    next
      case False
      then have "\<not> (g \<le> j \<and> c dvd (j - g) \<and> (j - g) div c = k)"
        using strided_slot_iff[OF assms(3), of j g k] by simp
      then have "(g \<le> j \<and> c dvd (j - g) \<and> (j - g) div c < Suc k) \<longleftrightarrow>
                 (g \<le> j \<and> c dvd (j - g) \<and> (j - g) div c < k)"
        by (auto simp: less_Suc_eq)
      then show ?thesis using j False by simp
    qed
  qed simp
  with prev step show ?case by (simp add: forM_snoc)
qed


lemma length_strided_image: "length (strided_image data c) = (length data - 1) * c + 1"
  by (simp add: strided_image_def)

lemma nth_strided_image:
  assumes "j < (length data - 1) * c + 1"
  shows "strided_image data c ! j = (if c dvd j then data ! (j div c) else NaN)"
  unfolding strided_image_def
  using nth_map_upt[of j "(length data - 1) * c + 1" 0
      "\<lambda>j. if c dvd j then data ! (j div c) else NaN"] assms
  by simp

lemma int64_nat: "int k < 9223372036854775808 \<Longrightarrow> int64 (int k) = int k"
  by (rule int64_id) simp_all

lemma buffer_fits:
  assumes "data \<noteq> []" and "(int (length data) + 3) * \<bar>inc\<bar> + 1 < 2 ^ 63"
  shows "int ((length data - 1) * nat \<bar>inc\<bar> + 1 + 4 * nat \<bar>inc\<bar>) < 9223372036854775808"
proof -
  obtain m where m: "length data = Suc m" using assms(1) by (cases data) simp_all
  have "(length data - 1) * nat \<bar>inc\<bar> + 1 + 4 * nat \<bar>inc\<bar> = (m + 4) * nat \<bar>inc\<bar> + 1"
    unfolding m by (simp add: algebra_simps)
  then have "int ((length data - 1) * nat \<bar>inc\<bar> + 1 + 4 * nat \<bar>inc\<bar>)
             = (int (length data) + 3) * \<bar>inc\<bar> + 1"
    by (simp add: m algebra_simps)
  then show ?thesis using assms(2) by simp
qed

lemma newGuardedVector_whole_eq:
  assumes "data \<noteq> []" and "inc \<noteq> 0"
    and fits: "(int (length data) + 3) * \<bar>inc\<bar> + 1 < 2 ^ 63"
  shows "newGuardedVector_whole data inc =
     Some (replicate (2 * nat \<bar>inc\<bar>) NaN @ strided_image data (nat \<bar>inc\<bar>) @
           replicate (2 * nat \<bar>inc\<bar>) NaN, 2 * \<bar>inc\<bar>)"
proof -
  define c where "c = nat \<bar>inc\<bar>"
  define n where "n = length data"
  define size where "size = (n - 1) * c + 1"
  define L where "L = size + 4 * c"
  have c: "0 < c" using assms(2) by (simp add: c_def)
  have n: "0 < n" using assms(1) by (simp add: n_def)
  have n1: "int (n - 1) = int n - 1" using n by (cases n) simp_all
  have ic: "\<bar>inc\<bar> = int c" by (simp add: c_def)
  obtain m where m: "n = Suc m" using n by (cases n) simp_all
  have "L = (m + 4) * c + 1"
    unfolding L_def size_def m by (simp add: algebra_simps)
  then have "int L = (int n + 3) * int c + 1"
    by (simp add: m algebra_simps)
  then have L: "int L < 9223372036854775808"
    using fits by (simp add: ic n_def)
  have le_L: "int k < 9223372036854775808" if "k \<le> L" for k
    using that L by linarith
  have c_le: "c \<le> L" "2 * c \<le> L" "4 * c \<le> L" "size \<le> L" "size + 2 * c \<le> L"
    by (simp_all add: L_def)
  have "n - 1 \<le> (n - 1) * c" using c by (cases c) simp_all
  then have n_le: "n - 1 \<le> L" "(n - 1) * c \<le> L"
    unfolding L_def size_def by linarith+
  have small: "\<not> 9223372036854775808 < \<bar>inc\<bar>" "\<bar>inc\<bar> < 9223372036854775808"
    using le_L[OF c_le(1)] by (simp_all add: ic)
  have st: "stride_of inc = int c"
    using stride_of_small[OF small(2)] by (simp add: ic)
  have "2 * int c = int (2 * c)" by simp
  then have g64: "int64 (2 * int c) = int (2 * c)"
    using int64_nat[OF le_L[OF c_le(2)]] by (simp only:)
  have "int (length data) - 1 = int (n - 1)" using n1 by (simp only: n_def)
  then have a1: "int64 (int (length data) - 1) = int (n - 1)"
    using int64_nat[OF le_L[OF n_le(1)]] by (simp only:)
  have "int (n - 1) * int c = int ((n - 1) * c)" by simp
  then have a2: "int64 (int (n - 1) * int c) = int ((n - 1) * c)"
    using int64_nat[OF le_L[OF n_le(2)]] by (simp only:)
  have "int ((n - 1) * c) + 1 = int size" by (simp add: size_def)
  then have a3: "int64 (int ((n - 1) * c) + 1) = int size"
    using int64_nat[OF le_L[OF c_le(4)]] by (simp only:)
  have "2 * int (2 * c) = int (4 * c)" by simp
  then have a4: "int64 (2 * int (2 * c)) = int (4 * c)"
    using int64_nat[OF le_L[OF c_le(3)]] by (simp only:)
  have "int size + int (4 * c) = int L" by (simp add: L_def)
  then have a5: "int64 (int size + int (4 * c)) = int L"
    using int64_nat[OF L] by (simp only:)
  have mk: "make_f64 (int L) = Some (replicate L (Fin 0))"
    by (simp add: make_f64_def)
  have "int (length (replicate L (Fin 0))) - int (2 * c) = int (size + 2 * c)"
    by (simp add: L_def)
  then have a6: "int64 (int (length (replicate L (Fin 0))) - int (2 * c)) = int (size + 2 * c)"
    using int64_nat[OF le_L[OF c_le(5)]] by (simp only:)
  have d: "int (size + 2 * c) - int (2 * c) = int size" by simp
  have "take size (drop (2 * c) (replicate L (Fin 0))) = replicate size (Fin 0)"
    by (simp add: L_def min_def)
  then have sl: "slice (replicate L (Fin 0)) (int (2 * c)) (int (size + 2 * c))
            = Some (replicate size (Fin 0))"
    unfolding slice_def d using c_le(5)
    by (simp del: of_nat_mult of_nat_add)
  have lsz: "int (length (replicate size (Fin 0))) = int size" by simp
  have nan: "map (\<lambda>_. NaN) (replicate L (Fin 0)) = replicate L NaN" by simp
  have loop: "forM [0..<n] (newGuardedVector_store data (int c) (int (2 * c)) (int size))
                (replicate L NaN) =
     Some (map (\<lambda>j. if 2 * c \<le> j \<and> c dvd (j - 2 * c) \<and> (j - 2 * c) div c < n
                     then data ! ((j - 2 * c) div c) else replicate L NaN ! j)
             [0..<length (replicate L NaN)])"
  proof (rule newGuardedVector_store_loop)
    fix i assume "i < n"
    then have "i \<le> n - 1" by simp
    then have "i * c \<le> (n - 1) * c" by (rule mult_le_mono1)
    then show "i * c < size" unfolding size_def by linarith
  next
    show "2 * c + size \<le> length (replicate L NaN)" by (simp add: L_def)
  next
    show "int size < 9223372036854775808" by (rule le_L[OF c_le(4)])
  qed (rule c)
  have fin: "map (\<lambda>j. if 2 * c \<le> j \<and> c dvd (j - 2 * c) \<and> (j - 2 * c) div c < n
                     then data ! ((j - 2 * c) div c) else replicate L NaN ! j)
             [0..<length (replicate L NaN)] =
        replicate (2 * c) NaN @ strided_image data c @ replicate (2 * c) NaN"
  proof (intro nth_equalityI)
    show "length (map (\<lambda>j. if 2 * c \<le> j \<and> c dvd (j - 2 * c) \<and> (j - 2 * c) div c < n
                     then data ! ((j - 2 * c) div c) else replicate L NaN ! j)
             [0..<length (replicate L NaN)]) =
          length (replicate (2 * c) NaN @ strided_image data c @ replicate (2 * c) NaN)"
      by (simp add: length_strided_image L_def size_def n_def)
  next
    fix j assume "j < length (map (\<lambda>j. if 2 * c \<le> j \<and> c dvd (j - 2 * c) \<and> (j - 2 * c) div c < n
                     then data ! ((j - 2 * c) div c) else replicate L NaN ! j)
             [0..<length (replicate L NaN)])"
    then have j: "j < L" by simp
    have len_img: "length (strided_image data c) = size"
      by (simp add: length_strided_image size_def n_def)
    consider "j < 2 * c" | "2 * c \<le> j" "j < 2 * c + size" | "2 * c + size \<le> j"
      by linarith
    then show "map (\<lambda>j. if 2 * c \<le> j \<and> c dvd (j - 2 * c) \<and> (j - 2 * c) div c < n
                     then data ! ((j - 2 * c) div c) else replicate L NaN ! j)
             [0..<length (replicate L NaN)] ! j =
          (replicate (2 * c) NaN @ strided_image data c @ replicate (2 * c) NaN) ! j"
    proof cases
      case 1
      then show ?thesis using j by (simp add: nth_append)
    next
      case 2
      have small: "c dvd (j - 2 * c) \<Longrightarrow> (j - 2 * c) div c < n"
      proof -
        assume d: "c dvd (j - 2 * c)"
        have "j - 2 * c \<le> (n - 1) * c" using 2 by (simp add: size_def)
        then have "(j - 2 * c) div c \<le> ((n - 1) * c) div c" by (rule div_le_mono)
        then show ?thesis using c n by simp
      qed
      have in_img: "j - 2 * c < size" using 2 by linarith
      have "(replicate (2 * c) NaN @ strided_image data c @ replicate (2 * c) NaN) ! j
            = strided_image data c ! (j - 2 * c)"
        using 2 in_img by (simp add: nth_append len_img)
      also have "\<dots> = (if c dvd (j - 2 * c) then data ! ((j - 2 * c) div c) else NaN)"
        using in_img by (simp add: nth_strided_image size_def n_def)
      finally show ?thesis using 2 j small by auto
    next
      case 3
      have "\<not> (c dvd (j - 2 * c) \<and> (j - 2 * c) div c < n)"
      proof
        assume h: "c dvd (j - 2 * c) \<and> (j - 2 * c) div c < n"
        then have "(j - 2 * c) div c \<le> n - 1" by linarith
        then have "(j - 2 * c) div c * c \<le> (n - 1) * c" by (rule mult_le_mono1)
        moreover have "(j - 2 * c) div c * c = j - 2 * c" using h by simp
        ultimately have "j - 2 * c < size" unfolding size_def by linarith
        with 3 show False by linarith
      qed
      then have lhs: "map (\<lambda>j. if 2 * c \<le> j \<and> c dvd (j - 2 * c) \<and> (j - 2 * c) div c < n
                     then data ! ((j - 2 * c) div c) else replicate L NaN ! j)
             [0..<length (replicate L NaN)] ! j = NaN"
        using j by auto
      have a: "\<not> j < 2 * c" and b: "\<not> j - 2 * c < size" and d: "j - 2 * c - size < 2 * c"
        using 3 j unfolding L_def by linarith+
      have "(replicate (2 * c) NaN @ strided_image data c @ replicate (2 * c) NaN) ! j
            = replicate (2 * c) NaN ! (j - 2 * c - size)"
        using a b by (simp add: nth_append len_img)
      also have "\<dots> = NaN" using d by simp
      finally show ?thesis using lhs by simp
    qed
  qed
  have g2: "int (2 * c) = 2 * \<bar>inc\<bar>" by (simp add: c_def)
  have "newGuardedVector_whole data inc =
        Some (replicate (2 * c) NaN @ strided_image data c @ replicate (2 * c) NaN, int (2 * c))"
    unfolding newGuardedVector_whole_stride st Let_def g64 a1 a2 a3 a4 a5 mk
    apply (simp only: small if_False Option.bind.simps a6 sl lsz nan)
    apply (simp only: n_def[symmetric] loop Option.bind.simps)
    using fin apply simp
    done
  then show ?thesis
    unfolding c_def by simp
qed


lemma slice_front: "slice (A @ B) 0 (int (length A)) = Some A"
  by (simp add: slice_def)

lemma slice_middle:
  "slice (A @ B @ C) (int (length A)) (int (length (A @ B @ C)) - int (length C)) = Some B"
proof -
  have "int (length (A @ B @ C)) - int (length C) - int (length A) = int (length B)"
    by simp
  then show ?thesis
    unfolding slice_def by simp
qed

lemma slice_back:
  "slice (A @ B @ C) (int (length (A @ B @ C)) - int (length C)) (int (length (A @ B @ C))) = Some C"
proof -
  have "int (length (A @ B @ C)) - int (length C) = int (length A + length B)"
    by simp
  then show ?thesis
    unfolding slice_def by simp
qed

lemma allNaN_replicate: "allNaN (replicate k NaN)"
  by (induction k) (simp_all add: IsNaN_def)

lemma equalStrided_loop_True:
  "(\<And>i. i \<in> set is \<Longrightarrow> i * c < length x \<and> x ! (i * c) = ref ! i) \<Longrightarrow>
   equalStrided_loop is ref x (int c) = Some True"
proof (induction "is")
  case Nil
  then show ?case by simp
next
  case (Cons i "is")
  have i: "i * c < length x" "x ! (i * c) = ref ! i"
    using Cons.prems[of i] by simp_all
  have ih: "equalStrided_loop is ref x (int c) = Some True"
    using Cons by simp
  have bnd: "int i * int c < int (length x)"
    using i(1) by (metis of_nat_less_iff of_nat_mult)
  have idx: "nat (int i * int c) = i * c"
    by (simp add: nat_mult_distrib)
  show ?case using i ih bnd
    by (simp add: get_at_def Same_iff idx)
qed

lemma smod_nat_eq_0_iff: "int i smod int c = 0 \<longleftrightarrow> c dvd i"
proof (cases "i = 0")
  case True
  then show ?thesis by (simp add: signed_modulo_int_def)
next
  case False
  then have "int i smod int c = int (i mod c)"
    by (simp add: signed_modulo_int_def zmod_int)
  then show ?thesis by (simp add: dvd_eq_mod_eq_0)
qed

lemma nonStridedWrite_loop_False:
  "0 < c \<Longrightarrow> (\<And>i. i \<in> set is \<Longrightarrow> \<not> c dvd i \<Longrightarrow> x ! i = NaN) \<Longrightarrow>
   nonStridedWrite_loop is x (int c) = Some False"
  by (induction "is") (auto simp: smod_nat_eq_0_iff IsNaN_def)

text \<open>
  C4. For a non-empty \<open>data\<close> and a stride of magnitude at least 1, \<open>newGuardedVector\<close>
  returns a view \<open>v\<close> with \<open>data ! i\<close> at offset \<open>i * |inc|\<close> and NaN at every other offset,
  between a front and a back guard of \<open>2 * |inc|\<close> NaNs each, the three lying one after the
  other in the allocated array. Validated at once, both guards pass \<open>allNaN\<close>,
  \<open>equalStrided data v inc\<close> returns true and \<open>nonStridedWrite v inc\<close> returns false.
\<close>

text \<open>
  C4, as stated, fails at the least stride. For \<open>data = [1.0]\<close> and \<open>inc = -2^63\<close> the
  negation \<^verbatim>\<open>-inc\<close> wraps to \<open>-2^63\<close> again and \<^verbatim>\<open>2 * inc\<close> wraps to 0: the function
  returns the view \<open>[1.0]\<close> between two empty guards, not guards of length \<open>2 * |inc|\<close>.
\<close>

theorem newGuardedVector_layout_counterexample:
  "newGuardedVector [Fin 1] (- (2 ^ 63)) = Some ([Fin 1], [], []) \<and>
   length ([] :: float64 list) \<noteq> 2 * nat \<bar>- (2 ^ 63) :: int\<bar>"
proof -
  have le: "\<not> 9223372036854775808 < \<bar>- 9223372036854775808 :: int\<bar>" by simp
  have st: "stride_of (- 9223372036854775808) = - 9223372036854775808" by (rule stride_of_least) simp
  have g: "int64 (2 * - 9223372036854775808) = 0" by (simp add: int64_numeral)
  have m1: "int64 (int (length [Fin 1]) - 1) = 0" by (simp add: int64_id)
  have m2: "int64 (0 * - 9223372036854775808) = 0" by (simp add: int64_id)
  have sz: "int64 (0 + 1) = 1" by (simp add: int64_id)
  have g2: "int64 (2 * 0) = 0" by (simp add: int64_id)
  have tot: "int64 (1 + 0) = 1" by (simp add: int64_id)
  have mk: "make_f64 1 = Some [Fin 0]" by (simp add: make_f64_def)
  have hi: "int64 (int (length [Fin 0]) - 0) = 1" by (simp add: int64_id)
  have sl: "slice [Fin 0] 0 1 = Some [Fin 0]" by (simp add: slice_def)
  have store: "newGuardedVector_store [Fin 1] (- 9223372036854775808) 0 (int (length [Fin 0])) 0 [NaN] = Some [Fin 1]"
    by (simp add: newGuardedVector_store_def int64_id set_at_def)
  have loop: "forM [0..<length [Fin 1]] (newGuardedVector_store [Fin 1] (- 9223372036854775808) 0 (int (length [Fin 0])))
                (map (\<lambda>_. NaN) [Fin 0]) = Some [Fin 1]"
    using store by simp
  have whole: "newGuardedVector_whole [Fin 1] (- 9223372036854775808) = Some ([Fin 1], 0)"
    unfolding newGuardedVector_whole_stride st Let_def g m1 m2 sz g2 tot mk
    by (simp only: le if_False Option.bind.simps hi sl loop)
  have hi': "int64 (int (length [Fin 1]) - 0) = 1" by (simp add: int64_id)
  have "newGuardedVector [Fin 1] (- 9223372036854775808) = Some ([Fin 1], [], [])"
    unfolding newGuardedVector_def whole
    by (simp only: prod.case Option.bind.simps hi') (simp add: slice_def)
  then show ?thesis by simp
qed

text \<open>
  C4, amended. For a non-empty \<open>data\<close> and a stride of magnitude at least 1 whose buffer
  length \<open>(len data + 3) * |inc| + 1\<close> is below \<open>2^63\<close> (nothing wraps around),
  \<open>newGuardedVector\<close> returns a view \<open>v\<close> with \<open>data ! i\<close> at offset \<open>i * |inc|\<close> and NaN at every
  other offset, between a front and a back guard of \<open>2 * |inc|\<close> NaNs each, the three lying
  one after the other in the allocated array. Validated at once, both guards pass
  \<open>allNaN\<close>, \<open>equalStrided data v inc\<close> returns true and \<open>nonStridedWrite v inc\<close> returns false.
\<close>

theorem newGuardedVector_layout:
  assumes "data \<noteq> []" and "1 \<le> \<bar>inc\<bar>"
    and "(int (length data) + 3) * \<bar>inc\<bar> + 1 < 2 ^ 63"
  shows "\<exists>v frontGuard backGuard.
     newGuardedVector data inc = Some (v, frontGuard, backGuard) \<and>
     newGuardedVector_whole data inc = Some (frontGuard @ v @ backGuard, 2 * \<bar>inc\<bar>) \<and>
     length v = (length data - 1) * nat \<bar>inc\<bar> + 1 \<and>
     (\<forall>i<length data. v ! (i * nat \<bar>inc\<bar>) = data ! i) \<and>
     (\<forall>j<length v. (\<forall>i<length data. j \<noteq> i * nat \<bar>inc\<bar>) \<longrightarrow> v ! j = NaN) \<and>
     frontGuard = replicate (2 * nat \<bar>inc\<bar>) NaN \<and>
     backGuard = replicate (2 * nat \<bar>inc\<bar>) NaN \<and>
     allNaN frontGuard \<and> allNaN backGuard \<and>
     equalStrided data v inc = Some True \<and>
     nonStridedWrite v inc = Some False"
proof -
  define c where "c = nat \<bar>inc\<bar>"
  define v where "v = strided_image data c"
  define G where "G = replicate (2 * c) NaN"
  have c: "0 < c" using assms(2) by (simp add: c_def)
  have n: "0 < length data" using assms(1) by simp
  have inc0: "inc \<noteq> 0" using assms(2) by auto
  have norm: "(if inc < 0 then - inc else inc) = int c" by (simp add: c_def)
  have ic: "2 * \<bar>inc\<bar> = int (2 * c)" by (simp add: c_def)
  have whole: "newGuardedVector_whole data inc = Some (G @ v @ G, 2 * \<bar>inc\<bar>)"
    using newGuardedVector_whole_eq[OF assms(1) inc0 assms(3)] by (simp add: c_def v_def G_def)
  have lenv: "length v = (length data - 1) * c + 1"
    by (simp add: v_def length_strided_image)
  have lenG: "length G = 2 * c" by (simp add: G_def)
  have s1: "slice (G @ v @ G) (int (2 * c)) (int (length (G @ v @ G)) - int (2 * c)) = Some v"
    using slice_middle[of G v G] by (simp only: lenG)
  have s2: "slice (G @ v @ G) 0 (int (2 * c)) = Some G"
    using slice_front[of G "v @ G"] by (simp only: lenG)
  have s3: "slice (G @ v @ G) (int (length (G @ v @ G)) - int (2 * c)) (int (length (G @ v @ G))) = Some G"
    using slice_back[of G v G] by (simp only: lenG)
  have "int (length (G @ v @ G)) < 9223372036854775808"
    using buffer_fits[OF assms(1) assms(3)] by (simp add: lenG lenv c_def)
  then have hi: "int64 (int (length (G @ v @ G)) - int (2 * c)) =
                 int (length (G @ v @ G)) - int (2 * c)"
    by (intro int64_id) (simp_all add: lenG)
  have res: "newGuardedVector data inc = Some (v, G, G)"
    unfolding newGuardedVector_def whole ic
    by (simp only: prod.case Option.bind.simps hi s1 s2 s3)
  have slot: "v ! (i * c) = data ! i" if "i < length data" for i
  proof -
    have "i \<le> length data - 1" using that by linarith
    then have "i * c \<le> (length data - 1) * c" by (rule mult_le_mono1)
    then have "i * c < (length data - 1) * c + 1" by linarith
    then show ?thesis using c by (simp add: v_def nth_strided_image)
  qed
  have bound: "i * c < length v" if "i < length data" for i
  proof -
    have "i \<le> length data - 1" using that by linarith
    then have "i * c \<le> (length data - 1) * c" by (rule mult_le_mono1)
    then show ?thesis unfolding lenv by linarith
  qed
  have off: "v ! j = NaN" if "j < length v" "\<not> c dvd j" for j
    using that by (simp add: v_def nth_strided_image length_strided_image)
  have other: "v ! j = NaN" if j: "j < length v" and ne: "\<forall>i<length data. j \<noteq> i * c" for j
  proof (cases "c dvd j")
    case False
    then show ?thesis using off j by simp
  next
    case True
    then have eq: "j = (j div c) * c" by simp
    have "j \<le> (length data - 1) * c" using j unfolding lenv by linarith
    then have "j div c \<le> ((length data - 1) * c) div c" by (rule div_le_mono)
    then have "j div c \<le> length data - 1" using c by simp
    then have "j div c < length data" using n by linarith
    with ne eq show ?thesis by blast
  qed
  have eqs: "equalStrided data v inc = Some True"
    unfolding equalStrided_def norm Let_def
    by (rule equalStrided_loop_True) (simp add: slot bound)
  have nsw: "nonStridedWrite v inc = Some False"
    unfolding nonStridedWrite_def norm Let_def
    by (rule nonStridedWrite_loop_False[OF c]) (simp add: off)
  show ?thesis
    using res whole lenv slot other eqs nsw
    by (simp add: G_def c_def[symmetric] allNaN_replicate)
qed

theorem newGuardedVector_layout_witness:
  "[Fin 1, Fin 2] \<noteq> [] \<and> 1 \<le> \<bar>- 2::int\<bar> \<and>
   (int (length [Fin 1, Fin 2]) + 3) * \<bar>- 2::int\<bar> + 1 < 2 ^ 63 \<and>
   newGuardedVector [Fin 1, Fin 2] (- 2) =
     Some ([Fin 1, NaN, Fin 2], [NaN, NaN, NaN, NaN], [NaN, NaN, NaN, NaN]) \<and>
   newGuardedVector_whole [Fin 1, Fin 2] (- 2) =
     Some ([NaN, NaN, NaN, NaN] @ [Fin 1, NaN, Fin 2] @ [NaN, NaN, NaN, NaN], 4) \<and>
   equalStrided [Fin 1, Fin 2] [Fin 1, NaN, Fin 2] (- 2) = Some True \<and>
   nonStridedWrite [Fin 1, NaN, Fin 2] (- 2) = Some False"
proof -
  have h1: "[Fin 1, Fin 2] \<noteq> []" and h2: "1 \<le> \<bar>- 2::int\<bar>"
    and h3: "(int (length [Fin 1, Fin 2]) + 3) * \<bar>- 2::int\<bar> + 1 < 2 ^ 63"
    by simp_all
  from newGuardedVector_layout[OF h1 h2 h3]
  obtain v f b where r: "newGuardedVector [Fin 1, Fin 2] (- 2) = Some (v, f, b)"
    and w: "newGuardedVector_whole [Fin 1, Fin 2] (- 2) = Some (f @ v @ b, 2 * \<bar>- 2\<bar>)"
    and l: "length v = (length [Fin 1, Fin 2] - 1) * nat \<bar>- 2\<bar> + 1"
    and sl: "\<forall>i<length [Fin 1, Fin 2]. v ! (i * nat \<bar>- 2\<bar>) = [Fin 1, Fin 2] ! i"
    and ot: "\<forall>j<length v. (\<forall>i<length [Fin 1, Fin 2]. j \<noteq> i * nat \<bar>- 2\<bar>) \<longrightarrow> v ! j = NaN"
    and g: "f = replicate (2 * nat \<bar>- 2\<bar>) NaN" "b = replicate (2 * nat \<bar>- 2\<bar>) NaN"
    and e: "equalStrided [Fin 1, Fin 2] v (- 2) = Some True"
    and nw: "nonStridedWrite v (- 2) = Some False"
    by blast
  have l3: "length v = 3" using l by simp
  have v0: "v ! 0 = Fin 1" using sl[rule_format, of 0] by simp
  have v2: "v ! 2 = Fin 2" using sl[rule_format, of 1] by simp
  have "\<forall>i<length [Fin 1, Fin 2]. (1::nat) \<noteq> i * nat \<bar>- 2\<bar>"
    by (simp add: less_Suc_eq)
  then have v1: "v ! 1 = NaN" using ot[rule_format, of 1] l3 by simp
  have v: "v = [Fin 1, NaN, Fin 2]"
  proof (intro nth_equalityI)
    show "length v = length [Fin 1, NaN, Fin 2]" using l3 by simp
  next
    fix i assume "i < length v"
    then have "i = 0 \<or> i = 1 \<or> i = 2" using l3 by linarith
    then show "v ! i = [Fin 1, NaN, Fin 2] ! i" using v0 v1 v2 by auto
  qed
  have f: "f = [NaN, NaN, NaN, NaN]" and b: "b = [NaN, NaN, NaN, NaN]"
    using g by (simp_all add: numeral_eq_Suc)
  show ?thesis
    using r w e nw unfolding v f b by simp
qed

section \<open>The parameter sets are the Cartesian products\<close>

lemma fill_row:
  assumes idx: "\<And>y. idx y = int (b + y)" and len: "b + k \<le> length s"
  shows "forM [0..<k] (\<lambda>y s. set_at s (idx y) (f y)) s =
     Some (map (\<lambda>j. if b \<le> j \<and> j < b + k then f (j - b) else s ! j) [0..<length s])"
  using len
proof (induction k)
  case 0
  have "s = map (\<lambda>j. if b \<le> j \<and> j < b + 0 then f (j - b) else s ! j) [0..<length s]"
    by (intro nth_equalityI) auto
  then show ?case by simp
next
  case (Suc k)
  let ?S = "map (\<lambda>j. if b \<le> j \<and> j < b + k then f (j - b) else s ! j) [0..<length s]"
  have prev: "forM [0..<k] (\<lambda>y s. set_at s (idx y) (f y)) s = Some ?S"
    using Suc by simp
  have step: "set_at ?S (idx k) (f k) = Some (?S[b + k := f k])"
    using Suc.prems by (simp add: set_at_def idx del: of_nat_add)
  have "?S[b + k := f k] =
        map (\<lambda>j. if b \<le> j \<and> j < b + Suc k then f (j - b) else s ! j) [0..<length s]"
    by (intro nth_equalityI) (auto simp: nth_list_update less_Suc_eq)
  with prev step show ?case by (simp add: forM_snoc)
qed








lemma pair_index:
  assumes "x < n" and "y < (n::nat)"
  shows "(x * n + y) div n = x" and "(x * n + y) mod n = y" and "x * n + y < n * n"
proof -
  show "(x * n + y) div n = x" "(x * n + y) mod n = y" using assms by simp_all
  have "x * n + y < x * n + n" using assms by simp
  also have "\<dots> = Suc x * n" by simp
  also have "\<dots> \<le> n * n" using assms by (metis Suc_leI mult_le_mono1)
  finally show "x * n + y < n * n" .
qed




section \<open>The oracle is reflexive and symmetric\<close>

lemma feq_commute: "feq a b = feq b a"
  by (auto simp: feq_def)

lemma fabs_fsub_commute: "fabs (fsub a b) = fabs (fsub b a)"
  by (cases a; cases b) (simp_all add: abs_minus_commute)

lemma fmax_commute: "fmax a b = fmax b a"
  by (cases a; cases b) (simp_all add: max.commute)

text \<open>
  C7. \<open>sameApprox\<close> is reflexive, \<open>sameApprox x x tol\<close> for every value \<open>x\<close> (finite, infinite
  or NaN) and every tolerance, and symmetric in its first two arguments.
\<close>

theorem sameApprox_reflexive_symmetric:
  "sameApprox x x tol \<and> sameApprox a b tol = sameApprox b a tol"
proof
  show "sameApprox x x tol"
    by (simp add: sameApprox_def Same_iff)
next
  have "Same a b = Same b a" by (auto simp: Same_iff)
  moreover have "EqualWithinAbs a b tol = EqualWithinAbs b a tol"
    unfolding EqualWithinAbs_def
    by (simp only: feq_commute[of a b] fabs_fsub_commute[of a b])
  moreover have "EqualWithinRel a b tol = EqualWithinRel b a tol"
    unfolding EqualWithinRel_def
    by (simp only: feq_commute[of a b] fabs_fsub_commute[of a b] fmax_commute[of "fabs a" "fabs b"])
  ultimately show "sameApprox a b tol = sameApprox b a tol"
    by (simp only: sameApprox_def EqualWithinAbsOrRel_def)
qed

section \<open>Matrices of the rotation test\<close>

lemma set_at_nat: "i = int j \<Longrightarrow> j < length xs \<Longrightarrow> set_at xs i v = Some (xs[j := v])"
  by (simp add: set_at_def)

lemma get_at_nat: "j < length xs \<Longrightarrow> get_at xs (int j) = Some (xs ! j)"
  by (simp add: get_at_def)

lemma length_ident: "length (ident n) = n * n"
  by (simp add: ident_def)

lemma length_mat_mul: "length (mat_mul n A B) = n * n"
  by (simp add: mat_mul_def)

lemma length_elementary: "length (elementary pivot n ck sk k) = n * n"
  by (cases pivot) (simp_all add: elementary_def length_ident)

lemma zero_loop:
  "forM [0..<length d] (\<lambda>i d. set_at d (int i) 0) d = Some (replicate (length d) (0::real))"
proof -
  have "forM [0..<length d] (\<lambda>i d. set_at d (int i) 0) d =
        Some (map (\<lambda>j. if 0 \<le> j \<and> j < 0 + length d then (0::real) else d ! j) [0..<length d])"
    by (rule fill_row) simp_all
  moreover have "map (\<lambda>j. if 0 \<le> j \<and> j < 0 + length d then (0::real) else d ! j) [0..<length d]
                 = replicate (length d) 0"
    by (intro nth_equalityI) simp_all
  ultimately show ?thesis by simp
qed

lemma diag_index_iff:
  assumes "idx < n * (n::nat)"
  shows "idx = k * n + k \<longleftrightarrow> idx div n = k \<and> idx mod n = k"
proof -
  have n: "0 < n" using assms by (cases n) simp_all
  show ?thesis
  proof
    assume e: "idx = k * n + k"
    have "k < n"
    proof (rule ccontr)
      assume "\<not> k < n"
      then have "n \<le> k" by simp
      then have "n * n \<le> k * n" by (rule mult_le_mono1)
      with e assms show False by linarith
    qed
    then show "idx div n = k \<and> idx mod n = k" using e by simp
  next
    assume "idx div n = k \<and> idx mod n = k"
    then show "idx = k * n + k" by (metis div_mult_mod_eq)
  qed
qed

lemma diag_loop:
  assumes "k \<le> n" and "length d = n * n"
  shows "forM [0..<k] (\<lambda>i d. set_at d (int i * int n + int i) 1) d =
     Some (map (\<lambda>idx. if idx div n = idx mod n \<and> idx div n < k then 1 else d ! idx) [0..<n * n])"
  using assms(1)
proof (induction k)
  case 0
  have "d = map (\<lambda>idx. if idx div n = idx mod n \<and> idx div n < 0 then 1 else d ! idx) [0..<n * n]"
    using assms(2) by (intro nth_equalityI) simp_all
  then show ?case by simp
next
  case (Suc k)
  let ?S = "map (\<lambda>idx. if idx div n = idx mod n \<and> idx div n < k then 1 else d ! idx) [0..<n * n]"
  have prev: "forM [0..<k] (\<lambda>i d. set_at d (int i * int n + int i) 1) d = Some ?S"
    using Suc by simp
  have kn: "k < n" using Suc.prems by simp
  have inr: "k * n + k < n * n" by (rule pair_index(3)[OF kn kn])
  have step: "set_at ?S (int k * int n + int k) 1 = Some (?S[k * n + k := 1])"
    by (rule set_at_nat) (use inr in simp_all)
  have "?S[k * n + k := 1] =
        map (\<lambda>idx. if idx div n = idx mod n \<and> idx div n < Suc k then 1 else d ! idx) [0..<n * n]"
  proof (intro nth_equalityI)
    fix j assume "j < length (?S[k * n + k := 1])"
    then have j: "j < n * n" by simp
    show "?S[k * n + k := 1] ! j =
        map (\<lambda>idx. if idx div n = idx mod n \<and> idx div n < Suc k then 1 else d ! idx) [0..<n * n] ! j"
      using j diag_index_iff[OF j, of k] by (auto simp: nth_list_update less_Suc_eq)
  qed simp
  with prev step show ?case by (simp add: forM_snoc)
qed

lemma ident_loop:
  "forM [0..<n] (\<lambda>i d. set_at d (int i * int n + int i) 1) (replicate (n * n) 0) = Some (ident n)"
proof -
  have "forM [0..<n] (\<lambda>i d. set_at d (int i * int n + int i) 1) (replicate (n * n) (0::real)) =
     Some (map (\<lambda>idx. if idx div n = idx mod n \<and> idx div n < n then 1 else replicate (n * n) 0 ! idx)
            [0..<n * n])"
    by (rule diag_loop) simp_all
  moreover have "map (\<lambda>idx. if idx div n = idx mod n \<and> idx div n < n then 1 else replicate (n * n) (0::real) ! idx)
            [0..<n * n] = ident n"
    unfolding ident_def
    by (intro nth_equalityI) (auto simp: less_mult_imp_div_less)
  ultimately show ?thesis by simp
qed

lemma DlasrTest_pk_eq:
  assumes k: "k + 1 < n" and c: "k < length c" and s: "k < length s" and d: "length d = n * n"
  shows "DlasrTest_pk pivot (int n) (int n) (n * n) c s k d =
         Some (elementary pivot n (c ! k) (s ! k) k)"
proof -
  have z: "forM [0..<n * n] (\<lambda>i d. set_at d (int i) 0) d = Some (replicate (n * n) 0)"
    using zero_loop[of d] d by simp
  have i: "forM [0..<n] (\<lambda>i d. set_at d (int i * int n + int i) 1) (replicate (n * n) 0) =
           Some (ident n)"
    by (rule ident_loop)
  have kn: "k < n" and k1: "k + 1 < n" and n1: "n - 1 < n" and nk: "n - 1 - k < n"
    using k by simp_all
  note b = pair_index(3)
  have len: "length (ident n) = n * n" by (rule length_ident)
  have rest: "(case pivot of
          Variable \<Rightarrow> do {
            d2 \<leftarrow> set_at (ident n) (int k * int n + int k) (c ! k);
            d3 \<leftarrow> set_at d2 (int k * int n + int k + 1) (s ! k);
            d4 \<leftarrow> set_at d3 ((int k + 1) * int n + int k) (- (s ! k));
            set_at d4 ((int k + 1) * int n + int k + 1) (c ! k)
          }
        | Top \<Rightarrow> do {
            d2 \<leftarrow> set_at (ident n) 0 (c ! k);
            d3 \<leftarrow> set_at d2 (int k + 1) (s ! k);
            d4 \<leftarrow> set_at d3 ((int k + 1) * int n) (- (s ! k));
            set_at d4 ((int k + 1) * int n + int k + 1) (c ! k)
          }
        | Bottom \<Rightarrow> do {
            d2 \<leftarrow> set_at (ident n) ((int n - 1 - int k) * int n + int n - int k - 1) (c ! k);
            d3 \<leftarrow> set_at d2 ((int n - 1 - int k) * int n + int n - 1) (s ! k);
            d4 \<leftarrow> set_at d3 ((int n - 1) * int n + int n - 1 - int k) (- (s ! k));
            set_at d4 ((int n - 1) * int n + int n - 1) (c ! k)
          }) = Some (elementary pivot n (c ! k) (s ! k) k)"
  proof (cases pivot)
    case Variable
    have e1: "int k * int n + int k = int (k * n + k)"
      and e2: "int k * int n + int k + 1 = int (k * n + k + 1)"
      and e3: "(int k + 1) * int n + int k = int ((k + 1) * n + k)"
      and e4: "(int k + 1) * int n + int k + 1 = int ((k + 1) * n + k + 1)"
      by (simp_all add: algebra_simps)
    have b1: "k * n + k < n * n" by (rule b[OF kn kn])
    have b2: "k * n + k + 1 < n * n" using b[OF kn k1] by simp
    have b3: "(k + 1) * n + k < n * n" by (rule b[OF k1 kn])
    have b4: "(k + 1) * n + k + 1 < n * n" using b[OF k1 k1] by simp
    have s1: "set_at xs (int k * int n + int k) v = Some (xs[k * n + k := v])"
      if "length xs = n * n" for xs and v :: real
      by (rule set_at_nat[OF e1]) (simp add: that b1)
    have s2: "set_at xs (int k * int n + int k + 1) v = Some (xs[k * n + k + 1 := v])"
      if "length xs = n * n" for xs and v :: real
      by (rule set_at_nat[OF e2]) (simp only: that b2)
    have s3: "set_at xs ((int k + 1) * int n + int k) v = Some (xs[(k + 1) * n + k := v])"
      if "length xs = n * n" for xs and v :: real
      by (rule set_at_nat[OF e3]) (simp only: that b3)
    have s4: "set_at xs ((int k + 1) * int n + int k + 1) v = Some (xs[(k + 1) * n + k + 1 := v])"
      if "length xs = n * n" for xs and v :: real
      by (rule set_at_nat[OF e4]) (simp only: that b4)
    show ?thesis
      unfolding Variable elementary_def
      by (simp add: s1 s2 s3 s4 len del: of_nat_add of_nat_mult)
  next
    case Top
    have e1: "0 = int 0"
      and e2: "int k + 1 = int (k + 1)"
      and e3: "(int k + 1) * int n = int ((k + 1) * n)"
      and e4: "(int k + 1) * int n + int k + 1 = int ((k + 1) * n + k + 1)"
      by (simp_all add: algebra_simps)
    have n0: "0 < n" using k by simp
    have b1: "0 < n * n" using n0 by simp
    have b2: "k + 1 < n * n" using b[of 0 n "k + 1"] n0 k1 by simp
    have b3: "(k + 1) * n < n * n" using b[OF k1 n0] by simp
    have b4: "(k + 1) * n + k + 1 < n * n" using b[OF k1 k1] by simp
    have s1: "set_at xs 0 v = Some (xs[0 := v])"
      if "length xs = n * n" for xs and v :: real
      by (rule set_at_nat[OF e1]) (simp only: that b1)
    have s2: "set_at xs (int k + 1) v = Some (xs[k + 1 := v])"
      if "length xs = n * n" for xs and v :: real
      by (rule set_at_nat[OF e2]) (simp only: that b2)
    have s3: "set_at xs ((int k + 1) * int n) v = Some (xs[(k + 1) * n := v])"
      if "length xs = n * n" for xs and v :: real
      by (rule set_at_nat[OF e3]) (simp only: that b3)
    have s4: "set_at xs ((int k + 1) * int n + int k + 1) v = Some (xs[(k + 1) * n + k + 1 := v])"
      if "length xs = n * n" for xs and v :: real
      by (rule set_at_nat[OF e4]) (simp only: that b4)
    show ?thesis
      unfolding Top elementary_def
      by (simp add: s1 s2 s3 s4 len del: of_nat_add of_nat_mult)
  next
    case Bottom
    define a where "a = n - 1 - k"
    define z where "z = n - 1"
    have ia: "int n - 1 - int k = int a" and iz: "int n - 1 = int z"
      using k unfolding a_def z_def by linarith+
    have az: "a < n" "z < n" using k unfolding a_def z_def by linarith+
    have e1: "(int n - 1 - int k) * int n + int n - int k - 1 = int (a * n + a)"
    proof -
      have "(int n - 1 - int k) * int n + int n - int k - 1
            = (int n - 1 - int k) * int n + (int n - 1 - int k)" by linarith
      also have "\<dots> = int a * int n + int a" by (simp only: ia)
      finally show ?thesis by simp
    qed
    have e2: "(int n - 1 - int k) * int n + int n - 1 = int (a * n + z)"
    proof -
      have "(int n - 1 - int k) * int n + int n - 1
            = (int n - 1 - int k) * int n + (int n - 1)" by linarith
      also have "\<dots> = int a * int n + int z" by (simp only: ia, simp only: iz)
      finally show ?thesis by simp
    qed
    have e3: "(int n - 1) * int n + int n - 1 - int k = int (z * n + a)"
    proof -
      have "(int n - 1) * int n + int n - 1 - int k
            = (int n - 1) * int n + (int n - 1 - int k)" by linarith
      also have "\<dots> = int z * int n + int a" by (simp only: ia, simp only: iz)
      finally show ?thesis by simp
    qed
    have e4: "(int n - 1) * int n + int n - 1 = int (z * n + z)"
    proof -
      have "(int n - 1) * int n + int n - 1 = (int n - 1) * int n + (int n - 1)" by linarith
      also have "\<dots> = int z * int n + int z" by (simp only: iz)
      finally show ?thesis by simp
    qed
    have b1: "a * n + a < n * n" by (rule b[OF az(1) az(1)])
    have b2: "a * n + z < n * n" by (rule b[OF az(1) az(2)])
    have b3: "z * n + a < n * n" by (rule b[OF az(2) az(1)])
    have b4: "z * n + z < n * n" by (rule b[OF az(2) az(2)])
    have s1: "set_at xs ((int n - 1 - int k) * int n + int n - int k - 1) v
              = Some (xs[a * n + a := v])"
      if "length xs = n * n" for xs and v :: real
      by (rule set_at_nat[OF e1]) (simp only: that b1)
    have s2: "set_at xs ((int n - 1 - int k) * int n + int n - 1) v
              = Some (xs[a * n + z := v])"
      if "length xs = n * n" for xs and v :: real
      by (rule set_at_nat[OF e2]) (simp only: that b2)
    have s3: "set_at xs ((int n - 1) * int n + int n - 1 - int k) v
              = Some (xs[z * n + a := v])"
      if "length xs = n * n" for xs and v :: real
      by (rule set_at_nat[OF e3]) (simp only: that b3)
    have s4: "set_at xs ((int n - 1) * int n + int n - 1) v
              = Some (xs[z * n + z := v])"
      if "length xs = n * n" for xs and v :: real
      by (rule set_at_nat[OF e4]) (simp only: that b4)
    have "do {
            d2 \<leftarrow> set_at (ident n) ((int n - 1 - int k) * int n + int n - int k - 1) (c ! k);
            d3 \<leftarrow> set_at d2 ((int n - 1 - int k) * int n + int n - 1) (s ! k);
            d4 \<leftarrow> set_at d3 ((int n - 1) * int n + int n - 1 - int k) (- (s ! k));
            set_at d4 ((int n - 1) * int n + int n - 1) (c ! k)
          } = Some ((ident n)[a * n + a := c ! k, a * n + z := s ! k,
                    z * n + a := - (s ! k), z * n + z := c ! k])"
      by (simp only: s1 s2 s3 s4 len length_list_update Option.bind.simps)
    then show ?thesis
      unfolding Bottom elementary_def a_def z_def
      by (simp only: Pivot.case)
  qed
  show ?thesis
    unfolding DlasrTest_pk_def
    using z i rest by (simp add: get_at_nat c s)
qed

lemma sum_list_upt: "(\<Sum>l\<leftarrow>[0..<n]. f l) = (\<Sum>l = 0..<n. (f l :: real))"
  by (simp add: interv_sum_list_conv_sum_set_nat)

lemma index_split:
  assumes "idx < n * (n::nat)"
  shows "idx div n < n" and "idx mod n < n" and "idx div n * n + idx mod n = idx"
proof -
  have n: "0 < n" using assms by (cases n) simp_all
  show "idx div n < n" using assms by (simp add: less_mult_imp_div_less)
  show "idx mod n < n" using n by simp
  show "idx div n * n + idx mod n = idx" by simp
qed

lemma nth_mat_mul:
  assumes "i < n" and "j < n"
  shows "mat_mul n A B ! (i * n + j) = (\<Sum>l = 0..<n. A ! (i * n + l) * B ! (l * n + j))"
proof -
  have "mat_mul n A B ! (i * n + j) =
        (\<Sum>l\<leftarrow>[0..<n]. A ! ((i * n + j) div n * n + l) * B ! (l * n + (i * n + j) mod n))"
    unfolding mat_mul_def using pair_index(3)[OF assms] by simp
  then show ?thesis
    using pair_index(1,2)[OF assms] by (simp add: sum_list_upt)
qed

lemma nth_ident:
  assumes "i < n" and "j < n"
  shows "ident n ! (i * n + j) = (if i = j then 1 else 0)"
  unfolding ident_def using pair_index[OF assms] by simp

lemma mat_mul_eqI:
  assumes "length X = n * n"
    and "\<And>i j. i < n \<Longrightarrow> j < n \<Longrightarrow>
           X ! (i * n + j) = (\<Sum>l = 0..<n. A ! (i * n + l) * B ! (l * n + j))"
  shows "mat_mul n A B = X"
proof (intro nth_equalityI)
  show "length (mat_mul n A B) = length X" by (simp add: length_mat_mul assms(1))
next
  fix idx assume "idx < length (mat_mul n A B)"
  then have idx: "idx < n * n" by (simp add: length_mat_mul)
  note sp = index_split[OF idx]
  have "mat_mul n A B ! idx = mat_mul n A B ! (idx div n * n + idx mod n)"
    by (simp only: sp(3))
  also have "\<dots> = (\<Sum>l = 0..<n. A ! (idx div n * n + l) * B ! (l * n + idx mod n))"
    by (rule nth_mat_mul[OF sp(1,2)])
  also have "\<dots> = X ! (idx div n * n + idx mod n)"
    by (rule assms(2)[OF sp(1,2), symmetric])
  finally show "mat_mul n A B ! idx = X ! idx" by (simp only: sp(3))
qed

lemma mat_mul_ident_right:
  assumes "length A = n * n"
  shows "mat_mul n A (ident n) = A"
proof (rule mat_mul_eqI[OF assms])
  fix i j assume i: "i < n" and j: "j < n"
  have "(\<Sum>l = 0..<n. A ! (i * n + l) * ident n ! (l * n + j)) =
        (\<Sum>l = 0..<n. if l = j then A ! (i * n + l) else 0)"
    by (rule sum.cong) (simp_all add: nth_ident j)
  also have "\<dots> = A ! (i * n + j)" using j by simp
  finally show "A ! (i * n + j) = (\<Sum>l = 0..<n. A ! (i * n + l) * ident n ! (l * n + j))"
    by simp
qed

lemma mat_mul_ident_left:
  assumes "length A = n * n"
  shows "mat_mul n (ident n) A = A"
proof (rule mat_mul_eqI[OF assms])
  fix i j assume i: "i < n" and j: "j < n"
  have "(\<Sum>l = 0..<n. ident n ! (i * n + l) * A ! (l * n + j)) =
        (\<Sum>l = 0..<n. if i = l then A ! (l * n + j) else 0)"
    by (rule sum.cong) (simp_all add: nth_ident i)
  also have "\<dots> = A ! (i * n + j)" using i by simp
  finally show "A ! (i * n + j) = (\<Sum>l = 0..<n. ident n ! (i * n + l) * A ! (l * n + j))"
    by simp
qed

lemma mat_mul_assoc:
  "mat_mul n (mat_mul n A B) C = mat_mul n A (mat_mul n B C)"
proof (rule mat_mul_eqI)
  show "length (mat_mul n A (mat_mul n B C)) = n * n" by (rule length_mat_mul)
next
  fix i j assume i: "i < n" and j: "j < n"
  have "(\<Sum>l = 0..<n. mat_mul n A B ! (i * n + l) * C ! (l * n + j)) =
        (\<Sum>l = 0..<n. (\<Sum>m = 0..<n. A ! (i * n + m) * B ! (m * n + l)) * C ! (l * n + j))"
    by (rule sum.cong) (simp_all add: nth_mat_mul i)
  also have "\<dots> = (\<Sum>l = 0..<n. \<Sum>m = 0..<n. A ! (i * n + m) * (B ! (m * n + l) * C ! (l * n + j)))"
    by (simp add: sum_distrib_right mult.assoc)
  also have "\<dots> = (\<Sum>m = 0..<n. \<Sum>l = 0..<n. A ! (i * n + m) * (B ! (m * n + l) * C ! (l * n + j)))"
    by (rule sum.swap)
  also have "\<dots> = (\<Sum>m = 0..<n. A ! (i * n + m) * (\<Sum>l = 0..<n. B ! (m * n + l) * C ! (l * n + j)))"
    by (simp add: sum_distrib_left)
  also have "\<dots> = (\<Sum>m = 0..<n. A ! (i * n + m) * mat_mul n B C ! (m * n + j))"
    by (rule sum.cong) (simp_all add: nth_mat_mul j)
  also have "\<dots> = mat_mul n A (mat_mul n B C) ! (i * n + j)"
    by (rule nth_mat_mul[OF i j, symmetric])
  finally show "mat_mul n A (mat_mul n B C) ! (i * n + j) =
        (\<Sum>l = 0..<n. mat_mul n A B ! (i * n + l) * C ! (l * n + j))" by simp
qed

lemma length_mat_prod: "length (mat_prod n Ps) = n * n"
  by (cases Ps) (simp_all add: mat_prod_def length_ident length_mat_mul)

lemma foldl_mat_mul:
  assumes "length A = n * n"
  shows "foldl (mat_mul n) A Ps = mat_mul n A (mat_prod n Ps)"
  using assms
proof (induction Ps arbitrary: A)
  case Nil
  then show ?case by (simp add: mat_prod_def mat_mul_ident_right)
next
  case (Cons P Ps)
  have "foldl (mat_mul n) (mat_mul n A P) Ps = mat_mul n (mat_mul n A P) (mat_prod n Ps)"
    by (rule Cons.IH) (rule length_mat_mul)
  then show ?case by (simp add: mat_prod_def mat_mul_assoc)
qed

lemma foldl_post_multiply: "foldl (mat_mul n) (ident n) Ps = mat_prod n Ps"
  by (simp add: foldl_mat_mul length_ident mat_mul_ident_left length_mat_prod)

lemma foldl_pre_multiply: "foldl (\<lambda>acc P. mat_mul n P acc) (ident n) Ps = mat_prod n (rev Ps)"
  by (simp add: mat_prod_def foldr_conv_foldl)

lemma copy_same_length: "length dst = length src \<Longrightarrow> copy dst src = src"
  by (simp add: copy_def)

lemma Data_square: "Data (square m d) = d"
  by (simp add: square_def)

lemma shape_ok_square:
  assumes "0 < n" and "length X = n * n"
  shows "shape_ok (square (int n) X)"
proof -
  have "(int n - 1) * int n + int n = int (n * n)"
    by (simp add: algebra_simps)
  then show ?thesis
    using assms unfolding shape_ok_def square_def by simp
qed

lemma Gemm_square:
  assumes n: "0 < n" and A: "length A = n * n" and B: "length B = n * n" and C: "length C = n * n"
  shows "Gemm 1 (square (int n) A) (square (int n) B) 0 (square (int n) C) =
         Some (square (int n) (mat_mul n A B))"
proof -
  have ok: "shape_ok (square (int n) A)" "shape_ok (square (int n) B)" "shape_ok (square (int n) C)"
    using shape_ok_square[OF n] A B C by simp_all
  have data: "map (\<lambda>idx.
               let i = idx div n; j = idx mod n in
               if i < n \<and> j < n
               then 1 * (\<Sum>l\<leftarrow>[0..<n]. A ! (i * n + l) * B ! (l * n + j)) + 0 * (C ! idx)
               else C ! idx) [0..<length C] = mat_mul n A B"
    unfolding mat_mul_def C
    by (rule map_cong) (simp_all add: index_split(1,2) Let_def)
  show ?thesis
    unfolding Gemm_def using ok data
    by (simp add: square_def entry_def cong: if_cong)
qed

lemma forM_pair:
  assumes "forM is f a = Some a'" and "forM is f b = Some b'"
  shows "forM is (\<lambda>i st. case st of (p, t) \<Rightarrow>
           do { p' \<leftarrow> f i p; t' \<leftarrow> f i t; Some (p', t') }) (a, b) = Some (a', b')"
  using assms
proof (induction "is" arbitrary: a b)
  case Nil
  then show ?case by simp
next
  case (Cons i "is")
  from Cons.prems(1) obtain a1 where a1: "f i a = Some a1" "forM is f a1 = Some a'"
    by (auto split: bind_splits)
  from Cons.prems(2) obtain b1 where b1: "f i b = Some b1" "forM is f b1 = Some b'"
    by (auto split: bind_splits)
  show ?case using a1(1) b1(1) Cons.IH[OF a1(2) b1(2)] by simp
qed

lemma DlasrTest_init:
  "forM [0..<n] (DlasrTest_init_body (int n)) (replicate (n * n) 0, replicate (n * n) 0) =
   Some (ident n, ident n)"
proof -
  have "DlasrTest_init_body (int n) =
        (\<lambda>i st. case st of (p, t) \<Rightarrow>
           do { p' \<leftarrow> set_at p (int i * int n + int i) 1;
                t' \<leftarrow> set_at t (int i * int n + int i) 1; Some (p', t') })"
    by (intro ext) (simp add: DlasrTest_init_body_def)
  then show ?thesis
    using forM_pair[OF ident_loop[of n] ident_loop[of n]] by simp
qed

lemma length_accumulated: "length (accumulated pivot direct n c s K) = n * n"
  unfolding accumulated_def
  by (induction K) (simp_all add: length_ident length_mat_mul)

lemma DlasrTest_step_eq:
  assumes k: "k + 1 < n" and c: "k < length c" and s: "k < length s"
    and X: "length X = n * n" and pk: "length pk = n * n"
  shows "DlasrTest_step pivot direct (int n) c s k (X, pk, X) =
     Some (if direct = Forward then mat_mul n (elementary pivot n (c ! k) (s ! k) k) X
           else mat_mul n X (elementary pivot n (c ! k) (s ! k) k),
           elementary pivot n (c ! k) (s ! k) k,
           if direct = Forward then mat_mul n (elementary pivot n (c ! k) (s ! k) k) X
           else mat_mul n X (elementary pivot n (c ! k) (s ! k) k))"
proof -
  let ?E = "elementary pivot n (c ! k) (s ! k) k"
  have n: "0 < n" using k by simp
  have E: "length ?E = n * n" by (rule length_elementary)
  have b: "DlasrTest_pk pivot (int n) (int n) (n * n) c s k pk = Some ?E"
    by (rule DlasrTest_pk_eq[OF k c s pk])
  have f: "Gemm 1 (square (int n) ?E) (square (int n) X) 0 (square (int n) X) =
           Some (square (int n) (mat_mul n ?E X))"
    by (rule Gemm_square[OF n E X X])
  have g: "Gemm 1 (square (int n) X) (square (int n) ?E) 0 (square (int n) X) =
           Some (square (int n) (mat_mul n X ?E))"
    by (rule Gemm_square[OF n X E X])
  show ?thesis
    unfolding DlasrTest_step_def
    by (simp add: b f g Data_square copy_same_length X length_mat_mul)
qed

lemma DlasrTest_loop:
  assumes "K \<le> length s" and "K \<le> length c" and "K = 0 \<or> K < n" and "length pk0 = n * n"
  shows "\<exists>pk. forM [0..<K] (DlasrTest_step pivot direct (int n) c s) (ident n, pk0, ident n) =
           Some (accumulated pivot direct n c s K, pk, accumulated pivot direct n c s K) \<and>
           length pk = n * n"
  using assms(1-3)
proof (induction K)
  case 0
  then show ?case using assms(4) by (simp add: accumulated_def)
next
  case (Suc K)
  then obtain pk where
    prev: "forM [0..<K] (DlasrTest_step pivot direct (int n) c s) (ident n, pk0, ident n) =
           Some (accumulated pivot direct n c s K, pk, accumulated pivot direct n c s K)"
    and pk: "length pk = n * n"
    by auto
  have k: "K + 1 < n" and c: "K < length c" and s: "K < length s"
    using Suc.prems by simp_all
  have acc: "accumulated pivot direct n c s (Suc K) =
        (if direct = Forward
         then mat_mul n (elementary pivot n (c ! K) (s ! K) K) (accumulated pivot direct n c s K)
         else mat_mul n (accumulated pivot direct n c s K) (elementary pivot n (c ! K) (s ! K) K))"
    by (simp add: accumulated_def)
  show ?case
    using prev DlasrTest_step_eq[where pivot=pivot and direct=direct,
        OF k c s length_accumulated[of pivot direct n c s K] pk]
    by (simp add: forM_snoc acc length_elementary)
qed

lemma DlasrTest_accumulate_eq:
  assumes "length s \<le> length c" and "length s = 0 \<or> length s < n"
  shows "DlasrTest_accumulate pivot direct (int n) c s =
         Some (square (int n) (accumulated pivot direct n c s (length s)))"
proof -
  have mk: "make_zero (0::real) (int n * int n) = Some (replicate (n * n) 0)"
    by (simp add: make_zero_def nat_mult_distrib)
  obtain pk where
    loop: "forM [0..<length s] (DlasrTest_step pivot direct (int n) c s)
             (ident n, replicate (n * n) 0, ident n) =
           Some (accumulated pivot direct n c s (length s), pk,
                 accumulated pivot direct n c s (length s))"
    using DlasrTest_loop[OF order_refl assms(1) assms(2), of "replicate (n * n) 0" pivot direct]
    by auto
  show ?thesis
    unfolding DlasrTest_accumulate_def mk
    using DlasrTest_init[of n] loop by simp
qed

lemma accumulated_Forward:
  "accumulated pivot Forward n c s K =
   mat_prod n (rev (map (\<lambda>k. elementary pivot n (c ! k) (s ! k) k) [0..<K]))"
  by (simp add: accumulated_def foldl_pre_multiply)

lemma accumulated_Backward:
  "accumulated pivot Backward n c s K =
   mat_prod n (map (\<lambda>k. elementary pivot n (c ! k) (s ! k) k) [0..<K])"
  by (simp add: accumulated_def foldl_post_multiply)

lemma upt_9: "[0..<9] = [0, 1, 2, 3, 4, 5, 6, 7, 8]"
  by (simp add: upt_rec)

lemma ident_3: "ident 3 = [1, 0, 0, 0, 1, 0, 0, 0, 1]"
  by (simp add: ident_def upt_9)

lemma elementary_3_0: "elementary Variable 3 0 1 0 = [0, 1, 0, - 1, 0, 0, 0, 0, 1]"
  by (simp add: elementary_def ident_3)

lemma elementary_3_1: "elementary Variable 3 0 1 (Suc 0) = [1, 0, 0, 0, 0, 1, 0, - 1, 0]"
  by (simp add: elementary_def ident_3)

lemma mat_mul_3:
  "mat_mul 3 [a0, a1, a2, a3, a4, a5, a6, a7, a8] [b0, b1, b2, b3, b4, b5, b6, b7, b8] =
     [a0 * b0 + a1 * b3 + a2 * b6, a0 * b1 + a1 * b4 + a2 * b7, a0 * b2 + a1 * b5 + a2 * b8,
      a3 * b0 + a4 * b3 + a5 * b6, a3 * b1 + a4 * b4 + a5 * b7, a3 * b2 + a4 * b5 + a5 * b8,
      a6 * b0 + a7 * b3 + a8 * b6, a6 * b1 + a7 * b4 + a8 * b7, a6 * b2 + a7 * b5 + a8 * b8]"
  by (simp add: mat_mul_def upt_3 upt_9)

text \<open>
  C6. Starting from the identity, the accumulation loop over the rotations \<open>0 .. K-1\<close>
  (\<open>K = len s\<close>, at most \<open>pSize - 1\<close>) returns \<open>P\<^sub>K\<^sub>-\<^sub>1 * ... * P\<^sub>1 * P\<^sub>0\<close> when the direction is
  Forward, each new elementary matrix multiplied in from the left, and
  \<open>P\<^sub>0 * P\<^sub>1 * ... * P\<^sub>K\<^sub>-\<^sub>1\<close> when it is Backward, multiplied in from the right; \<open>P\<^sub>k\<close> is the
  elementary matrix that iteration \<open>k\<close> builds. With no rotation the result is the identity.
\<close>

theorem accumulation_order:
  assumes "length s \<le> length c" and "length s = 0 \<or> length s < n"
  shows "DlasrTest_accumulate pivot Forward (int n) c s =
           Some (square (int n)
             (mat_prod n (rev (map (\<lambda>k. elementary pivot n (c ! k) (s ! k) k) [0..<length s])))) \<and>
         DlasrTest_accumulate pivot Backward (int n) c s =
           Some (square (int n)
             (mat_prod n (map (\<lambda>k. elementary pivot n (c ! k) (s ! k) k) [0..<length s]))) \<and>
         (\<forall>k<length s. \<forall>d. length d = n * n \<longrightarrow>
            DlasrTest_pk pivot (int n) (int n) (n * n) c s k d =
              Some (elementary pivot n (c ! k) (s ! k) k)) \<and>
         (s = [] \<longrightarrow> DlasrTest_accumulate pivot direct (int n) c s = Some (square (int n) (ident n)))"
proof (intro conjI allI impI)
  show "DlasrTest_accumulate pivot Forward (int n) c s =
           Some (square (int n)
             (mat_prod n (rev (map (\<lambda>k. elementary pivot n (c ! k) (s ! k) k) [0..<length s]))))"
    using DlasrTest_accumulate_eq[OF assms, of pivot Forward]
    by (simp only: accumulated_Forward)
  show "DlasrTest_accumulate pivot Backward (int n) c s =
           Some (square (int n)
             (mat_prod n (map (\<lambda>k. elementary pivot n (c ! k) (s ! k) k) [0..<length s])))"
    using DlasrTest_accumulate_eq[OF assms, of pivot Backward]
    by (simp only: accumulated_Backward)
next
  fix k and d :: "real list" assume k: "k < length s" and d: "length d = n * n"
  have "k + 1 < n" using k assms(2) by linarith
  moreover have "k < length c" using k assms(1) by linarith
  ultimately show "DlasrTest_pk pivot (int n) (int n) (n * n) c s k d =
              Some (elementary pivot n (c ! k) (s ! k) k)"
    using k d by (intro DlasrTest_pk_eq)
next
  assume "s = []"
  then show "DlasrTest_accumulate pivot direct (int n) c s = Some (square (int n) (ident n))"
    using DlasrTest_accumulate_eq[OF assms, of pivot direct]
    by (simp add: accumulated_def)
qed

theorem accumulation_order_witness:
  "length [1, 1 :: real] \<le> length [0, 0 :: real] \<and> length [1, 1 :: real] < 3 \<and>
   DlasrTest_accumulate Variable Forward 3 [0, 0] [1, 1] =
     Some (square 3 [0, 1, 0, 0, 0, 1, 1, 0, 0]) \<and>
   DlasrTest_accumulate Variable Backward 3 [0, 0] [1, 1] =
     Some (square 3 [0, 0, 1, - 1, 0, 0, 0, - 1, 0]) \<and>
   DlasrTest_accumulate Variable Forward 3 [] [] = Some (square 3 [1, 0, 0, 0, 1, 0, 0, 0, 1])"
proof -
  have h1: "length [1, 1 :: real] \<le> length [0, 0 :: real]"
    and h2: "length [1, 1 :: real] = 0 \<or> length [1, 1 :: real] < 3"
    and h3: "length ([] :: real list) \<le> length ([] :: real list)"
    and h4: "length ([] :: real list) = 0 \<or> length ([] :: real list) < 3"
    by simp_all
  have two: "[0..<2] = [0, Suc 0]" by (simp add: upt_rec numeral_eq_Suc)
  show ?thesis
    using accumulation_order[OF h1 h2, of Variable Forward]
      accumulation_order[OF h3 h4, of Variable Forward]
    by (simp add: two mat_prod_def elementary_3_0 elementary_3_1 ident_3 mat_mul_3)
qed

section \<open>A trial compares zeros with zeros\<close>

lemma length_copy: "length (copy dst src) = length dst"
  by (simp add: copy_def)

lemma sum_list_zero: "(\<And>x. x \<in> set xs \<Longrightarrow> f x = (0::real)) \<Longrightarrow> (\<Sum>x\<leftarrow>xs. f x) = 0"
  by (induction xs) simp_all

lemma window_index:
  assumes "i < M" and "j < N" and "N \<le> (L::nat)"
  shows "i * L + j < M * L"
proof -
  have "i * L + j < i * L + L" using assms by simp
  also have "\<dots> = Suc i * L" by simp
  also have "\<dots> \<le> M * L" using assms(1) by (metis Suc_leI mult_le_mono1)
  finally show ?thesis .
qed

lemma Gemm_zero:
  assumes ok: "shape_ok a" "shape_ok b" "shape_ok c"
    and dims: "Cols a = Rows b" "Rows c = Rows a" "Cols c = Cols b"
    and c0: "Data c = replicate K 0"
    and z: "\<And>i l j. i < nat (Rows c) \<Longrightarrow> l < nat (Cols a) \<Longrightarrow> j < nat (Cols c) \<Longrightarrow>
              entry a i l = 0 \<or> entry b l j = 0"
  shows "Gemm alpha a b 0 c = Some c"
proof -
  have "map (\<lambda>idx.
               let i = idx div nat (Stride c); j = idx mod nat (Stride c) in
               if i < nat (Rows c) \<and> j < nat (Cols c)
               then alpha * (\<Sum>l\<leftarrow>[0..<nat (Cols a)]. entry a i l * entry b l j)
                    + 0 * (Data c ! idx)
               else Data c ! idx)
          [0..<length (Data c)] = Data c"
  proof (intro nth_equalityI)
    fix idx assume "idx < length (map (\<lambda>idx.
               let i = idx div nat (Stride c); j = idx mod nat (Stride c) in
               if i < nat (Rows c) \<and> j < nat (Cols c)
               then alpha * (\<Sum>l\<leftarrow>[0..<nat (Cols a)]. entry a i l * entry b l j)
                    + 0 * (Data c ! idx)
               else Data c ! idx)
          [0..<length (Data c)])"
    then have idx: "idx < K" by (simp add: c0)
    have cz: "Data c ! idx = 0" using idx by (simp add: c0)
    have s0: "(\<Sum>l\<leftarrow>[0..<nat (Cols a)]. entry a i l * entry b l j) = 0"
      if "i < nat (Rows c)" "j < nat (Cols c)" for i j
      by (rule sum_list_zero) (use z[OF that(1) _ that(2)] in auto)
    show "map (\<lambda>idx.
               let i = idx div nat (Stride c); j = idx mod nat (Stride c) in
               if i < nat (Rows c) \<and> j < nat (Cols c)
               then alpha * (\<Sum>l\<leftarrow>[0..<nat (Cols a)]. entry a i l * entry b l j)
                    + 0 * (Data c ! idx)
               else Data c ! idx)
          [0..<length (Data c)] ! idx = Data c ! idx"
      using idx cz s0 by (simp add: c0 Let_def)
  qed simp
  then show ?thesis
    unfolding Gemm_def using ok dims by simp
qed

lemma shape_ok_window:
  assumes "0 < M" and "0 < N" and "N \<le> L"
  shows "shape_ok \<lparr>Rows = int M, Cols = int N, Stride = int L, Data = replicate (M * L) 0\<rparr>"
proof -
  have "(M - 1) * L + N \<le> M * L"
    using window_index[of "M - 1" M "N - 1" N L] assms by simp
  moreover have "(int M - 1) * int L + int N = int ((M - 1) * L + N)"
    using assms(1) by (simp add: of_nat_diff)
  ultimately have "(int M - 1) * int L + int N \<le> int (M * L)"
    by (simp only: of_nat_le_iff)
  then show ?thesis
    using assms unfolding shape_ok_def by simp
qed

lemma entry_window_zero:
  assumes "i < M" and "j < N" and "N \<le> L"
  shows "entry \<lparr>Rows = int M, Cols = int N, Stride = int L, Data = replicate (M * L) 0\<rparr> i j = 0"
  using window_index[OF assms] by (simp add: entry_def)

lemma EqualApprox_zero: "EqualApprox (replicate K 0) (replicate K 0) tol"
  unfolding EqualApprox_def
  by (simp add: list_all2_conv_all_nth EqualWithinAbsOrRel_def EqualWithinAbs_def feq_def)

lemma DlasrTest_trial_eq:
  fixes M N L0 :: nat and side :: Side and rnd :: "nat \<Rightarrow> real"
  assumes M: "0 < M" and N: "0 < N" and L0: "L0 = 0 \<or> N \<le> L0"
  defines "L \<equiv> (if L0 = 0 then N else L0)"
  defines "pS \<equiv> (if side = Right then N else M)"
  defines "thetas \<equiv> map (\<lambda>k. rnd (M * L + k) * 2 * pi) [0..<pS - 1]"
  shows "DlasrTest_trial impl rnd side pivot direct (int M) (int N) (int L0) =
     Some \<lparr>dlasr_input = replicate (M * L) 0,
           dlasr_output = copy (replicate (M * L) 0)
              (impl side pivot direct (int M) (int N) (map cos thetas) (map sin thetas)
                 (replicate (M * L) 0) (int L)),
           reference = replicate (M * L) 0,
           compared = replicate (M * L) 0,
           mismatch = False\<rparr>"
proof -
  define c where "c = map cos thetas"
  define s where "s = map sin thetas"
  define Z where "Z = replicate (M * L) (0::real)"
  define out where "out = copy Z (impl side pivot direct (int M) (int N) c s Z (int L))"
  have NL: "N \<le> L" using L0 by (auto simp: L_def)
  have lda: "(if int L0 = 0 then int N else int L0) = int L" by (simp add: L_def)
  have "int M * int L = int (M * L)" by simp
  then have mkA: "make_zero (0::real) (int M * int L) = Some Z"
    unfolding make_zero_def Z_def by (simp del: of_nat_mult)
  have lenZ: "length Z = M * L" by (simp add: Z_def)
  have pS: "0 < pS" using M N by (simp add: pS_def)
  have "(if side = Left then int M - 1 else int N - 1) = int (pS - 1)"
    using M N by (cases side) (simp_all add: pS_def of_nat_diff)
  then have mkS: "make_zero (0::real) (if side = Left then int M - 1 else int N - 1) =
                  Some (replicate (pS - 1) 0)"
    by (simp add: make_zero_def)
  have th: "map (\<lambda>k. rnd (length (map rnd [0..<length Z]) + k) * 2 * pi)
              [0..<length (replicate (pS - 1) (0::real))] = thetas"
    by (simp add: thetas_def lenZ)
  have mkC: "make_zero (0::real) (int (length (map rnd [0..<length Z]))) = Some Z"
    by (simp add: make_zero_def Z_def del: of_nat_mult)
  have cp1: "copy (map rnd [0..<length Z]) Z = Z"
    by (rule copy_same_length) simp
  have cp2: "copy out Z = Z"
    by (rule copy_same_length) (simp add: out_def length_copy)
  have pSi: "(if side = Right then int N else int M) = int pS" by (simp add: pS_def)
  have lens: "length s \<le> length c" "length s = 0 \<or> length s < pS"
    using pS by (simp_all add: s_def c_def thetas_def)
  have acc: "DlasrTest_accumulate pivot direct (int pS) c s =
             Some (square (int pS) (accumulated pivot direct pS c s (length s)))"
    by (rule DlasrTest_accumulate_eq[OF lens])
  let ?P = "square (int pS) (accumulated pivot direct pS c s (length s))"
  let ?W = "\<lparr>Rows = int M, Cols = int N, Stride = int L, Data = Z\<rparr>"
  have okP: "shape_ok ?P"
    by (rule shape_ok_square[OF pS length_accumulated])
  have okW: "shape_ok ?W"
    unfolding Z_def by (rule shape_ok_window[OF M N NL])
  have entW: "entry ?W i j = 0" if "i < M" "j < N" for i j
    unfolding Z_def by (rule entry_window_zero[OF that NL])
  have gemmL: "Gemm 1 ?P ?W 0 ?W = Some ?W" if "side = Left"
  proof (rule Gemm_zero[OF okP okW okW])
    show "Cols ?P = Rows ?W" "Rows ?W = Rows ?P" using that by (simp_all add: square_def pS_def)
    show "Data ?W = replicate (M * L) 0" by (simp add: Z_def)
    fix i l j assume "i < nat (Rows ?W)" "l < nat (Cols ?P)" "j < nat (Cols ?W)"
    then have "l < M" "j < N" using that by (simp_all add: square_def pS_def)
    then show "entry ?P i l = 0 \<or> entry ?W l j = 0" using entW by simp
  qed simp
  have gemmR: "Gemm 1 ?W ?P 0 ?W = Some ?W" if "side = Right"
  proof (rule Gemm_zero[OF okW okP okW])
    show "Cols ?W = Rows ?P" "Cols ?W = Cols ?P" using that by (simp_all add: square_def pS_def)
    show "Data ?W = replicate (M * L) 0" by (simp add: Z_def)
    fix i l j assume "i < nat (Rows ?W)" "l < nat (Cols ?W)" "j < nat (Cols ?W)"
    then have "i < M" "l < N" by simp_all
    then show "entry ?W i l = 0 \<or> entry ?P l j = 0" using entW by simp
  qed simp
  have gemm: "(if side = Left then Gemm 1 ?P ?W 0 ?W else Gemm 1 ?W ?P 0 ?W) = Some ?W"
    using gemmL gemmR by (cases side) simp_all
  have eq: "EqualApprox Z Z tol" for tol
    unfolding Z_def by (rule EqualApprox_zero)
  show ?thesis
    unfolding DlasrTest_trial_def lda Let_def mkA
    apply (simp only: Option.bind.simps mkS th mkC cp1 pSi)
    apply (simp only: c_def[symmetric] s_def[symmetric] out_def[symmetric] acc Option.bind.simps
        cp2 gemm)
    apply (simp add: eq Z_def[symmetric] c_def[symmetric] s_def[symmetric] out_def)
    done
qed

text \<open>
  Whatever \<open>impl\<close> does and whatever the random numbers are, in every trial of the table
  \<open>impl\<close> is handed zeros, the reference is zero, the slice compared with it is zero, and
  no mismatch is reported.
\<close>

lemma DlasrTest_trial_blind:
  assumes "(m, n, lda0) \<in> set DlasrTest_table"
  shows "\<exists>r. DlasrTest_trial impl rnd side pivot direct m n lda0 = Some r \<and>
           set (dlasr_input r) \<subseteq> {0} \<and> set (reference r) \<subseteq> {0} \<and>
           set (compared r) \<subseteq> {0} \<and> \<not> mismatch r"
proof -
  have gen: "\<exists>r. DlasrTest_trial impl rnd side pivot direct (int M) (int N) (int L0) = Some r \<and>
           set (dlasr_input r) \<subseteq> {0} \<and> set (reference r) \<subseteq> {0} \<and>
           set (compared r) \<subseteq> {0} \<and> \<not> mismatch r"
    if "0 < M" "0 < N" "L0 = 0 \<or> N \<le> L0" for M N L0
    using DlasrTest_trial_eq[OF that, of impl rnd side pivot direct] by auto
  from assms consider "m = int 5 \<and> n = int 5 \<and> lda0 = int 0" | "m = int 5 \<and> n = int 10 \<and> lda0 = int 0"
    | "m = int 10 \<and> n = int 5 \<and> lda0 = int 0" | "m = int 5 \<and> n = int 5 \<and> lda0 = int 20"
    | "m = int 5 \<and> n = int 10 \<and> lda0 = int 20" | "m = int 10 \<and> n = int 5 \<and> lda0 = int 20"
    by (auto simp: DlasrTest_table_def)
  then show ?thesis
  proof cases
    case 1 then show ?thesis using gen[of 5 5 0] by simp
  next
    case 2 then show ?thesis using gen[of 5 10 0] by simp
  next
    case 3 then show ?thesis using gen[of 10 5 0] by simp
  next
    case 4 then show ?thesis using gen[of 5 5 20] by simp
  next
    case 5 then show ?thesis using gen[of 5 10 20] by simp
  next
    case 6 then show ?thesis using gen[of 10 5 20] by simp
  qed
qed

text \<open>
  C1. The trial \<open>side = Left\<close>, \<open>pivot = Variable\<close>, \<open>direct = Forward\<close>, \<open>m = n = lda = 5\<close>, run
  on an implementation that overwrites the matrix with ones, for any random numbers:
  \<^verbatim>\<open>copy(a, aCopy)\<close> copies the zeroed \<open>aCopy\<close> over \<open>a\<close>, so the implementation receives
  zeros instead of the random matrix; its output (all ones) is overwritten by the second
  \<^verbatim>\<open>copy(a, aCopy)\<close>; the reference is \<open>P\<close> times the zero matrix \<open>aMat\<close>; and the comparison
  of zeros with zeros reports no mismatch.
\<close>

theorem DlasrTest_accepts_wrong_Dlasr:
  "DlasrTest_trial wrong_Dlasr rnd Left Variable Forward 5 5 0 =
     Some \<lparr>dlasr_input = replicate 25 0, dlasr_output = replicate 25 1,
           reference = replicate 25 0, compared = replicate 25 0, mismatch = False\<rparr>"
proof -
  have "copy (replicate 25 (0::real)) (map (\<lambda>_. 1) (replicate 25 (0::real))) = replicate 25 1"
    by (simp add: copy_def)
  then show ?thesis
    using DlasrTest_trial_eq[of 5 5 0 wrong_Dlasr rnd Left Variable Forward]
    by (simp add: wrong_Dlasr_def)
qed

end
